theory Spec2Isabelle
  imports Main
begin

unbundle bit_operations_syntax

section \<open>Data model\<close>

text \<open>
  The source is \<^verbatim>\<open>src/ip-subnet-calculator.ts\<close>. Its numbers are JavaScript
  numbers; every value the library computes is an integer far below \<open>2 ^ 53\<close>, where
  double arithmetic is exact, so \<^verbatim>\<open>IPNumber\<close> and \<^verbatim>\<open>BitCount\<close> are modelled as
  \<^typ>\<open>int\<close>. Non-integral numbers are outside the model.
  \<^verbatim>\<open>IPAny = string | number\<close> is a tagged union.
\<close>

datatype IPAny = Str string | Num int

text \<open>The two \<^verbatim>\<open>throw new Error(...)\<close> sites, each carrying the offending value.\<close>

datatype error = NotAnIpAddress IPAny | NotANumericIpAddress IPAny

record SubnetAnalysis =
  ipLow :: int
  ipLowStr :: string
  ipHigh :: int
  ipHighStr :: string
  prefixMask :: int
  prefixMaskStr :: string
  prefixSize :: int
  invertedMask :: int
  invertedMaskStr :: string
  invertedMaskSize :: int

section \<open>JavaScript's 32-bit operators\<close>

text \<open>
  ECMAScript's \<^verbatim>\<open>ToUint32\<close> and \<^verbatim>\<open>ToInt32\<close> on an integral number, and the operators
  built on them: \<^verbatim>\<open>a << n\<close> shifts \<^verbatim>\<open>ToInt32(a)\<close> by the low five bits of
  \<^verbatim>\<open>ToUint32(n)\<close> and yields an int32; \<^verbatim>\<open>a & b\<close> yields an int32;
  \<^verbatim>\<open>x >>> 0\<close> is \<^verbatim>\<open>ToUint32(x)\<close>.
\<close>

definition ToUint32 :: "int \<Rightarrow> int" where
  "ToUint32 x = x mod 2 ^ 32"

definition ToInt32 :: "int \<Rightarrow> int" where
  "ToInt32 x = (let u = x mod 2 ^ 32 in if u \<ge> 2 ^ 31 then u - 2 ^ 32 else u)"

definition js_shl :: "int \<Rightarrow> int \<Rightarrow> int" where
  "js_shl a n = ToInt32 (ToInt32 a * 2 ^ nat (ToUint32 n mod 32))"

definition js_and :: "int \<Rightarrow> int \<Rightarrow> int" where
  "js_and a b = ToInt32 a AND ToInt32 b"

definition js_ushr0 :: "int \<Rightarrow> int" where
  "js_ushr0 x = ToUint32 x"

section \<open>Mask builders\<close>

text \<open>\<^verbatim>\<open>for (i = 0; i < prefixSize; i += 1) mask += (1 << (32 - (i + 1))) >>> 0;\<close>\<close>

function getPrefixMask_loop :: "int \<Rightarrow> int \<Rightarrow> int \<Rightarrow> int" where
  "getPrefixMask_loop prefSize i msk =
     (if i < prefSize
      then getPrefixMask_loop prefSize (i + 1) (msk + js_ushr0 (js_shl 1 (32 - (i + 1))))
      else msk)"
  by pat_completeness auto
termination
  by (relation "measure (\<lambda>(prefSize, i, msk). nat (prefSize - i))") auto

declare getPrefixMask_loop.simps [simp del]

definition getPrefixMask :: "int \<Rightarrow> int" where
  "getPrefixMask prefSize = getPrefixMask_loop prefSize 0 0"

text \<open>\<^verbatim>\<open>for (i = 0; i < maskSize; i += 1) mask += (1 << i) >>> 0;\<close>\<close>

function getMask_loop :: "int \<Rightarrow> int \<Rightarrow> int \<Rightarrow> int" where
  "getMask_loop maskSize i msk =
     (if i < maskSize
      then getMask_loop maskSize (i + 1) (msk + js_ushr0 (js_shl 1 i))
      else msk)"
  by pat_completeness auto
termination
  by (relation "measure (\<lambda>(maskSize, i, msk). nat (maskSize - i))") auto

declare getMask_loop.simps [simp del]

definition getMask :: "int \<Rightarrow> int" where
  "getMask maskSize = getMask_loop maskSize 0 0"

section \<open>Address codec\<close>

text \<open>
  \<^verbatim>\<open>String.prototype.split('.')\<close>: the pieces between the dots, always at least one.
\<close>

fun split_dot :: "string \<Rightarrow> string list" where
  "split_dot [] = [[]]"
| "split_dot (c # cs) =
     (let ps = split_dot cs
      in if c = CHR ''.'' then [] # ps else (c # hd ps) # tl ps)"

definition isDigit :: "char \<Rightarrow> bool" where
  "isDigit c = (48 \<le> (of_char c :: nat) \<and> (of_char c :: nat) \<le> 57)"

definition digitVal :: "char \<Rightarrow> int" where
  "digitVal c = int (of_char c) - 48"

text \<open>
  \<^verbatim>\<open>parseInt(s, 10)\<close> and unary \<^verbatim>\<open>+s\<close> on a string of decimal digits (the only
  strings either is applied to, after the regular expression has matched): the decimal
  value, leading zeros allowed.
\<close>

definition parseInt :: "string \<Rightarrow> int" where
  "parseInt s = foldl (\<lambda>acc c. acc * 10 + digitVal c) 0 s"

text \<open>One capture group \<^verbatim>\<open>([0-9]{1,3})\<close>.\<close>

definition matchGroup :: "string \<Rightarrow> bool" where
  "matchGroup g = (1 \<le> length g \<and> length g \<le> 3 \<and> list_all isDigit g)"

text \<open>
  \<^verbatim>\<open>ip.match(/^([0-9]{1,3})\.([0-9]{1,3})\.([0-9]{1,3})\.([0-9]{1,3})$/)\<close>: the four
  groups, or \<open>None\<close> for \<^verbatim>\<open>null\<close>. A group holds no dot, so the groups are the
  pieces between the dots and there are exactly four of them.
\<close>

definition ipMatch :: "string \<Rightarrow> string list option" where
  "ipMatch ip =
     (let parts = split_dot ip
      in if length parts = 4 \<and> list_all matchGroup parts then Some parts else None)"

definition isIp :: "string \<Rightarrow> bool" where
  "isIp ip =
     (case ipMatch ip of
        None \<Rightarrow> False
      | Some parts \<Rightarrow> list_all (\<lambda>p. \<not> (parseInt p > 255 \<or> parseInt p < 0)) parts)"

definition isDecimalIp :: "int \<Rightarrow> bool" where
  "isDecimalIp ipNum = (ipNum mod 1 = 0 \<and> ipNum \<ge> 0 \<and> ipNum \<le> 4294967295)"

definition toDecimal :: "IPAny \<Rightarrow> error + int" where
  "toDecimal ipString =
     (case ipString of
        Num n \<Rightarrow> if isDecimalIp n then Inr n else Inl (NotAnIpAddress ipString)
      | Str s \<Rightarrow>
          if \<not> isIp s then Inl (NotAnIpAddress ipString)
          else
            (let d = split_dot s
             in Inr (((parseInt (d ! 0) * 256 + parseInt (d ! 1)) * 256 + parseInt (d ! 2)) * 256
                       + parseInt (d ! 3))))"

text \<open>The template literal \<^verbatim>\<open>`${n}`\<close> of a non-negative integer: decimal, no leading zeros.\<close>

definition digitChar :: "nat \<Rightarrow> char" where
  "digitChar d = char_of (48 + d)"

fun numToString :: "nat \<Rightarrow> string" where
  "numToString n =
     (if n < 10 then [digitChar n] else numToString (n div 10) @ [digitChar (n mod 10)])"

declare numToString.simps [simp del]

text \<open>
  \<^verbatim>\<open>for (let i = 3; i > 0; i -= 1) { curIp = Math.floor(curIp / 256); d = `${curIp % 256}.${d}`; }\<close>
\<close>

fun toString_loop :: "nat \<Rightarrow> int \<Rightarrow> string \<Rightarrow> string" where
  "toString_loop 0 curIp d = d"
| "toString_loop (Suc i) curIp d =
     (let curIp' = curIp div 256
      in toString_loop i curIp' (numToString (nat (curIp' mod 256)) @ ''.'' @ d))"

definition toString :: "IPAny \<Rightarrow> error + string" where
  "toString ipNum =
     (case ipNum of
        Str s \<Rightarrow> if isIp s then Inr s else Inl (NotANumericIpAddress ipNum)
      | Num n \<Rightarrow>
          if \<not> isDecimalIp n then Inl (NotANumericIpAddress ipNum)
          else Inr (toString_loop 3 n (numToString (nat (n mod 256)))))"

section \<open>Range analyzer\<close>

text \<open>
  \<^verbatim>\<open>getMaskRange\<close> builds the object literal field by field; each \<^verbatim>\<open>toString\<close> call
  may throw, and the first one that does ends the call.
\<close>

definition getMaskRange :: "int \<Rightarrow> int \<Rightarrow> error + SubnetAnalysis" where
  "getMaskRange ipNum prefSize =
     (let pMask = getPrefixMask prefSize;
          lowMask = getMask (32 - prefSize);
          low = js_ushr0 (js_and ipNum pMask);
          high = js_ushr0 (js_ushr0 (js_and ipNum pMask) + lowMask)
      in case toString (Num low) of Inl e \<Rightarrow> Inl e | Inr lowStr \<Rightarrow>
         (case toString (Num high) of Inl e \<Rightarrow> Inl e | Inr highStr \<Rightarrow>
         (case toString (Num pMask) of Inl e \<Rightarrow> Inl e | Inr pMaskStr \<Rightarrow>
         (case toString (Num lowMask) of Inl e \<Rightarrow> Inl e | Inr lowMaskStr \<Rightarrow>
            Inr \<lparr> ipLow = low, ipLowStr = lowStr,
                  ipHigh = high, ipHighStr = highStr,
                  prefixMask = pMask, prefixMaskStr = pMaskStr,
                  prefixSize = prefSize,
                  invertedMask = lowMask, invertedMaskStr = lowMaskStr,
                  invertedMaskSize = 32 - prefSize \<rparr>))))"

text \<open>
  \<^verbatim>\<open>for (prefixSize = 32; prefixSize >= 0; prefixSize -= 1)\<close> with its \<^verbatim>\<open>break\<close>;
  \<open>None\<close> is \<^verbatim>\<open>null\<close>, \<open>Inl\<close> an error thrown by \<^verbatim>\<open>getMaskRange\<close>.
\<close>

function getOptimalRange_loop ::
  "int \<Rightarrow> int \<Rightarrow> int \<Rightarrow> SubnetAnalysis option \<Rightarrow> error + SubnetAnalysis option" where
  "getOptimalRange_loop ipNum ipEndNum prefSize optimalRange =
     (if prefSize \<ge> 0 then
        (case getMaskRange ipNum prefSize of
           Inl e \<Rightarrow> Inl e
         | Inr maskRange \<Rightarrow>
             if ipLow maskRange = ipNum \<and> ipHigh maskRange \<le> ipEndNum
             then getOptimalRange_loop ipNum ipEndNum (prefSize - 1) (Some maskRange)
             else Inr optimalRange)
      else Inr optimalRange)"
  by pat_completeness auto
termination
  by (relation "measure (\<lambda>(ipNum, ipEndNum, prefSize, optimalRange). nat (prefSize + 1))") auto

declare getOptimalRange_loop.simps [simp del]

definition getOptimalRange :: "int \<Rightarrow> int \<Rightarrow> error + SubnetAnalysis option" where
  "getOptimalRange ipNum ipEndNum = getOptimalRange_loop ipNum ipEndNum 32 None"

text \<open>
  The \<^verbatim>\<open>while (ipCurNum <= ipEndNum)\<close> loop of \<^verbatim>\<open>calculate\<close>. Its termination rests
  on what \<^verbatim>\<open>getOptimalRange\<close> returns and is proved below, after the facts it needs.
\<close>

function calculate_loop ::
  "int \<Rightarrow> int \<Rightarrow> SubnetAnalysis list \<Rightarrow> error + SubnetAnalysis list option" where
  "calculate_loop ipCurNum ipEndNum rangeCollection =
     (if ipCurNum \<le> ipEndNum then
        (case getOptimalRange ipCurNum ipEndNum of
           Inl e \<Rightarrow> Inl e
         | Inr None \<Rightarrow> Inr None
         | Inr (Some optimalRange) \<Rightarrow>
             calculate_loop (ipHigh optimalRange + 1) ipEndNum (rangeCollection @ [optimalRange]))
      else Inr (Some rangeCollection))"
  by pat_completeness auto

definition calculate :: "IPAny \<Rightarrow> IPAny \<Rightarrow> error + SubnetAnalysis list option" where
  "calculate ipStart ipEnd =
     (case toDecimal ipStart of Inl err \<Rightarrow> Inr None | Inr ipStartNum \<Rightarrow>
     (case toDecimal ipEnd of Inl err \<Rightarrow> Inr None | Inr ipEndNum \<Rightarrow>
        if ipEndNum < ipStartNum then Inr None
        else calculate_loop ipStartNum ipEndNum []))"

section \<open>Entry points for a single block\<close>

definition calculateSubnetMask :: "IPAny \<Rightarrow> int \<Rightarrow> error + SubnetAnalysis option" where
  "calculateSubnetMask ip prefSize =
     (case toDecimal ip of
        Inl err \<Rightarrow> Inr None
      | Inr ipNum \<Rightarrow>
          (case getMaskRange ipNum prefSize of Inl e \<Rightarrow> Inl e | Inr r \<Rightarrow> Inr (Some r)))"

text \<open>
  \<^verbatim>\<open>for (prefixSize = 0; prefixSize < 32; prefixSize += 1)\<close> of \<^verbatim>\<open>calculateCIDRPrefix\<close>;
  the value returned is \<^verbatim>\<open>prefixSize\<close> when the loop ends or breaks.
\<close>

function calculateCIDRPrefix_loop :: "int \<Rightarrow> int \<Rightarrow> int \<Rightarrow> int" where
  "calculateCIDRPrefix_loop subnetMaskNum prefSize prefix =
     (if prefSize < 32 then
        (let newPrefix = js_ushr0 (prefix + js_shl 1 (32 - (prefSize + 1)))
         in if js_ushr0 (js_and subnetMaskNum newPrefix) \<noteq> newPrefix then prefSize
            else calculateCIDRPrefix_loop subnetMaskNum (prefSize + 1) newPrefix)
      else prefSize)"
  by pat_completeness auto
termination
  by (relation "measure (\<lambda>(subnetMaskNum, prefSize, prefix). nat (32 - prefSize))") auto

declare calculateCIDRPrefix_loop.simps [simp del]

definition calculateCIDRPrefix :: "IPAny \<Rightarrow> IPAny \<Rightarrow> error + SubnetAnalysis option" where
  "calculateCIDRPrefix ip subnetMask =
     (case toDecimal ip of Inl err \<Rightarrow> Inr None | Inr ipNum \<Rightarrow>
     (case toDecimal subnetMask of Inl err \<Rightarrow> Inr None | Inr subnetMaskNum \<Rightarrow>
        (case getMaskRange ipNum (calculateCIDRPrefix_loop subnetMaskNum 0 0) of
           Inl e \<Rightarrow> Inl e
         | Inr r \<Rightarrow> Inr (Some r))))"

section \<open>Notions used to state the properties\<close>

text \<open>The string \<^verbatim>\<open>toString\<close> builds for an integer address.\<close>

definition ipStr :: "int \<Rightarrow> string" where
  "ipStr n = toString_loop 3 n (numToString (nat (n mod 256)))"

text \<open>The network address of \<open>a\<close> at prefix size \<open>p\<close>, on unsigned 32-bit values.\<close>

definition blockLow :: "int \<Rightarrow> int \<Rightarrow> int" where
  "blockLow a p = take_bit 32 a AND getPrefixMask p"

text \<open>The descriptor of the block of \<open>a\<close> at prefix size \<open>p\<close>.\<close>

definition blockAt :: "int \<Rightarrow> int \<Rightarrow> SubnetAnalysis" where
  "blockAt a p =
     \<lparr> ipLow = blockLow a p, ipLowStr = ipStr (blockLow a p),
       ipHigh = blockLow a p + getMask (32 - p),
       ipHighStr = ipStr (blockLow a p + getMask (32 - p)),
       prefixMask = getPrefixMask p, prefixMaskStr = ipStr (getPrefixMask p),
       prefixSize = p,
       invertedMask = getMask (32 - p), invertedMaskStr = ipStr (getMask (32 - p)),
       invertedMaskSize = 32 - p \<rparr>"

text \<open>
  The test \<^verbatim>\<open>maskRange.ipLow === ipNum && maskRange.ipHigh <= ipEndNum\<close> of
  \<^verbatim>\<open>getOptimalRange\<close>, at one prefix size.
\<close>

definition fits :: "int \<Rightarrow> int \<Rightarrow> int \<Rightarrow> bool" where
  "fits ipNum ipEndNum p =
     (case getMaskRange ipNum p of
        Inl e \<Rightarrow> False
      | Inr maskRange \<Rightarrow> ipLow maskRange = ipNum \<and> ipHigh maskRange \<le> ipEndNum)"

text \<open>\<^verbatim>\<open>Array.prototype.join('.')\<close>, the inverse of \<^verbatim>\<open>split('.')\<close>.\<close>

fun joinDot :: "string list \<Rightarrow> string" where
  "joinDot [] = []"
| "joinDot [p] = p"
| "joinDot (p # q # ps) = p @ CHR ''.'' # joinDot (q # ps)"

text \<open>A decimal group written without a leading zero: \<open>0\<close> itself, or starting with another digit.\<close>

definition noLeadingZero :: "string \<Rightarrow> bool" where
  "noLeadingZero g = (g = ''0'' \<or> hd g \<noteq> CHR ''0'')"

text \<open>An address string all of whose four groups are written without a leading zero.\<close>

definition canonicalIp :: "string \<Rightarrow> bool" where
  "canonicalIp ip = (isIp ip \<and> list_all noLeadingZero (split_dot ip))"

text \<open>
  The length of the run of leading 1-bits of a 32-bit value: the bits are read from
  bit 31 downwards, up to the first 0-bit.
\<close>

definition leadingOnes :: "int \<Rightarrow> int" where
  "leadingOnes m = int (length (takeWhile (\<lambda>k. bit m k) (rev [0..<32])))"

text \<open>
  A list of blocks tiles the interval from \<open>s\<close> to \<open>e\<close>: the first block starts at
  \<open>s\<close>, every block is non-empty and starts one past the end of the block before it, and
  the last block ends at \<open>e\<close>.
\<close>

fun tiles :: "int \<Rightarrow> int \<Rightarrow> SubnetAnalysis list \<Rightarrow> bool" where
  "tiles s e [] = False"
| "tiles s e [b] = (ipLow b = s \<and> ipLow b \<le> ipHigh b \<and> ipHigh b = e)"
| "tiles s e (b # c # bs) = (ipLow b = s \<and> ipLow b \<le> ipHigh b \<and> tiles (ipHigh b + 1) e (c # bs))"

section \<open>Facts about the 32-bit operators and the mask builders\<close>

lemma ToUint32_take_bit: "ToUint32 x = take_bit 32 x"
  by (simp add: ToUint32_def take_bit_eq_mod)

lemma ToInt32_mod: "ToInt32 x mod 2 ^ 32 = x mod 2 ^ 32"
proof -
  have "(x mod 2 ^ 32 - 2 ^ 32) mod 2 ^ 32 = x mod (2 ^ 32 :: int)"
    by (metis mod_diff_right_eq mod_self diff_zero mod_mod_trivial)
  then show ?thesis
    by (simp add: ToInt32_def Let_def)
qed

lemma ToUint32_ToInt32: "ToUint32 (ToInt32 x) = ToUint32 x"
  using ToInt32_mod [of x] by (simp add: ToUint32_def)

lemma ToInt32_take_bit: "take_bit 32 (ToInt32 x) = take_bit 32 x"
  using ToInt32_mod [of x] by (simp add: take_bit_eq_mod)

lemma ToInt32_small: "0 \<le> x \<Longrightarrow> x < 2 ^ 31 \<Longrightarrow> ToInt32 x = x"
  by (simp add: ToInt32_def Let_def)

lemma ushr_shl1: "js_ushr0 (js_shl 1 n) = 2 ^ nat (n mod 32)"
proof -
  have a: "ToInt32 1 = 1" by (simp add: ToInt32_def)
  have b: "ToUint32 n mod 32 = n mod 32"
    by (simp add: ToUint32_def mod_mod_cancel)
  have "nat (n mod 32) < 32" by simp
  then have c: "(2::int) ^ nat (n mod 32) < 2 ^ 32"
    by (intro power_strict_increasing) simp_all
  show ?thesis
    using c by (simp add: js_ushr0_def js_shl_def a b ToUint32_ToInt32) (simp add: ToUint32_def)
qed

lemma ushr_and: "js_ushr0 (js_and a b) = take_bit 32 a AND take_bit 32 b"
  by (simp add: js_ushr0_def js_and_def ToUint32_take_bit take_bit_and ToInt32_take_bit)

lemma getPrefixMask_loop_eq:
  "0 \<le> i \<Longrightarrow> i \<le> p \<Longrightarrow> p \<le> 32 \<Longrightarrow>
   getPrefixMask_loop p i m = m + 2 ^ nat (32 - i) - 2 ^ nat (32 - p)"
proof (induction p i m rule: getPrefixMask_loop.induct)
  case (1 p i m)
  show ?case
  proof (cases "i < p")
    case True
    have e: "(32 - (i + 1)) mod 32 = 32 - (i + 1)"
      using True 1 by simp
    have f: "nat (32 - i) = Suc (nat (32 - (i + 1)))"
      using True 1 by simp
    have "getPrefixMask_loop p i m =
      getPrefixMask_loop p (i + 1) (m + js_ushr0 (js_shl 1 (32 - (i + 1))))"
      using True by (subst getPrefixMask_loop.simps) simp
    also have "\<dots> = m + 2 ^ nat (32 - (i + 1)) + 2 ^ nat (32 - (i + 1)) - 2 ^ nat (32 - p)"
      using True 1 by (simp add: ushr_shl1 e)
    also have "\<dots> = m + 2 ^ nat (32 - i) - 2 ^ nat (32 - p)"
      by (simp add: f)
    finally show ?thesis .
  next
    case False
    then have "i = p" using 1 by simp
    then show ?thesis by (subst getPrefixMask_loop.simps) simp
  qed
qed

lemma getMask_loop_eq:
  "0 \<le> i \<Longrightarrow> i \<le> s \<Longrightarrow> s \<le> 32 \<Longrightarrow>
   getMask_loop s i m = m + 2 ^ nat s - 2 ^ nat i"
proof (induction s i m rule: getMask_loop.induct)
  case (1 s i m)
  show ?case
  proof (cases "i < s")
    case True
    have e: "i mod 32 = i"
      using True 1 by simp
    have f: "nat (i + 1) = Suc (nat i)"
      using True 1 by simp
    have "getMask_loop s i m = getMask_loop s (i + 1) (m + js_ushr0 (js_shl 1 i))"
      using True by (subst getMask_loop.simps) simp
    also have "\<dots> = m + 2 ^ nat i + 2 ^ nat s - 2 ^ nat (i + 1)"
      using True 1 by (simp add: ushr_shl1 e)
    also have "\<dots> = m + 2 ^ nat s - 2 ^ nat i"
      by (simp add: f)
    finally show ?thesis .
  next
    case False
    then have "i = s" using 1 by simp
    then show ?thesis by (subst getMask_loop.simps) simp
  qed
qed

lemma getPrefixMask_eq:
  "0 \<le> p \<Longrightarrow> p \<le> 32 \<Longrightarrow> getPrefixMask p = 2 ^ 32 - 2 ^ nat (32 - p)"
  by (simp add: getPrefixMask_def getPrefixMask_loop_eq)

lemma getMask_eq: "0 \<le> s \<Longrightarrow> s \<le> 32 \<Longrightarrow> getMask s = 2 ^ nat s - 1"
  by (simp add: getMask_def getMask_loop_eq)

lemma getMask_mask: "0 \<le> s \<Longrightarrow> s \<le> 32 \<Longrightarrow> getMask s = mask (nat s)"
  by (simp add: getMask_eq mask_eq_exp_minus_1)

lemma top_bits_push: "j \<le> 32 \<Longrightarrow> (2::int) ^ 32 - 2 ^ j = push_bit j (mask (32 - j))"
proof -
  assume "j \<le> 32"
  then have "(2::int) ^ 32 = 2 ^ j * 2 ^ (32 - j)"
    by (simp flip: power_add)
  then show ?thesis
    by (simp add: push_bit_eq_mult mask_eq_exp_minus_1 algebra_simps)
qed

lemma getPrefixMask_push:
  "0 \<le> p \<Longrightarrow> p \<le> 32 \<Longrightarrow> getPrefixMask p = push_bit (nat (32 - p)) (mask (nat p))"
proof -
  assume a: "0 \<le> p" "p \<le> 32"
  then have "32 - nat (32 - p) = nat p" by simp
  then show ?thesis
    using a top_bits_push [of "nat (32 - p)"] by (simp add: getPrefixMask_eq)
qed

lemma bit_getPrefixMask:
  "0 \<le> p \<Longrightarrow> p \<le> 32 \<Longrightarrow> bit (getPrefixMask p) k \<longleftrightarrow> nat (32 - p) \<le> k \<and> k < 32"
  by (auto simp add: getPrefixMask_push bit_push_bit_iff bit_mask_iff)

lemma bit_getMask:
  "0 \<le> s \<Longrightarrow> s \<le> 32 \<Longrightarrow> bit (getMask s) k \<longleftrightarrow> k < nat s"
  by (simp add: getMask_mask bit_mask_iff)

lemma masks_and:
  assumes "0 \<le> n" "n \<le> 32"
  shows "getPrefixMask n AND getMask (32 - n) = 0"
  using assms by (intro bit_eqI) (auto simp add: bit_and_iff bit_getPrefixMask bit_getMask)

lemma masks_or:
  assumes "0 \<le> n" "n \<le> 32"
  shows "getPrefixMask n OR getMask (32 - n) = 4294967295"
proof -
  have "getPrefixMask n OR getMask (32 - n) = mask 32"
    using assms by (intro bit_eqI) (auto simp add: bit_or_iff bit_getPrefixMask bit_getMask bit_mask_iff)
  then show ?thesis by (simp add: mask_eq_exp_minus_1)
qed

section \<open>Facts about \<^verbatim>\<open>getMaskRange\<close>\<close>

lemma toString_Num: "0 \<le> n \<Longrightarrow> n < 2 ^ 32 \<Longrightarrow> toString (Num n) = Inr (ipStr n)"
  by (simp add: toString_def isDecimalIp_def ipStr_def)

lemma getPrefixMask_range:
  assumes "0 \<le> p" "p \<le> 32"
  shows "0 \<le> getPrefixMask p" and "getPrefixMask p < 2 ^ 32"
proof -
  have "(2::int) ^ nat (32 - p) \<le> 2 ^ 32"
    using assms by (intro power_increasing) simp_all
  moreover have "(0::int) < 2 ^ nat (32 - p)" by simp
  ultimately show "0 \<le> getPrefixMask p" and "getPrefixMask p < 2 ^ 32"
    using assms by (simp_all add: getPrefixMask_eq)
qed

lemma getMask_range:
  assumes "0 \<le> s" "s \<le> 32"
  shows "0 \<le> getMask s" and "getMask s < 2 ^ 32"
proof -
  have "(2::int) ^ nat s \<le> 2 ^ 32"
    using assms by (intro power_increasing) simp_all
  moreover have "(0::int) < 2 ^ nat s" by simp
  ultimately show "0 \<le> getMask s" and "getMask s < 2 ^ 32"
    using assms by (simp_all add: getMask_eq)
qed

lemma blockLow_range:
  assumes "0 \<le> p" "p \<le> 32"
  shows "0 \<le> blockLow a p" and "blockLow a p < 2 ^ 32"
proof -
  show "0 \<le> blockLow a p"
    by (simp add: blockLow_def)
  have "blockLow a p \<le> getPrefixMask p"
    unfolding blockLow_def using getPrefixMask_range(1) [OF assms] by (rule AND_upper2)
  then show "blockLow a p < 2 ^ 32"
    using getPrefixMask_range(2) [OF assms] by simp
qed

lemma bit_blockLow:
  "0 \<le> p \<Longrightarrow> p \<le> 32 \<Longrightarrow>
   bit (blockLow a p) k \<longleftrightarrow> bit a k \<and> nat (32 - p) \<le> k \<and> k < 32"
  by (auto simp add: blockLow_def bit_and_iff bit_take_bit_iff bit_getPrefixMask)

lemma blockLow_and_mask:
  assumes "0 \<le> p" "p \<le> 32"
  shows "blockLow a p AND getMask (32 - p) = 0"
  using assms by (intro bit_eqI) (auto simp add: bit_and_iff bit_blockLow bit_getMask)

lemma blockLow_plus_or:
  assumes "0 \<le> p" "p \<le> 32"
  shows "blockLow a p + getMask (32 - p) = blockLow a p OR getMask (32 - p)"
  using blockLow_and_mask [OF assms] by (rule disjunctive_add_eq_or)

lemma blockHigh_range:
  assumes "0 \<le> p" "p \<le> 32"
  shows "0 \<le> blockLow a p + getMask (32 - p)" and "blockLow a p + getMask (32 - p) < 2 ^ 32"
proof -
  let ?h = "blockLow a p OR getMask (32 - p)"
  have "take_bit 32 ?h = ?h"
    using assms
    by (intro bit_eqI) (auto simp add: bit_take_bit_iff bit_or_iff bit_blockLow bit_getMask)
  then have "0 \<le> ?h \<and> ?h < 2 ^ 32"
    by (simp only: take_bit_int_eq_self_iff)
  then show "0 \<le> blockLow a p + getMask (32 - p)"
    and "blockLow a p + getMask (32 - p) < 2 ^ 32"
    by (simp_all add: blockLow_plus_or [OF assms])
qed

lemma getMaskRange_eq:
  assumes "0 \<le> p" "p \<le> 32"
  shows "getMaskRange a p = Inr (blockAt a p)"
proof -
  have q: "0 \<le> 32 - p" "32 - p \<le> 32" using assms by simp_all
  have low: "js_ushr0 (js_and a (getPrefixMask p)) = blockLow a p"
    using getPrefixMask_range [OF assms]
    by (simp add: ushr_and blockLow_def take_bit_int_eq_self)
  have high: "js_ushr0 (blockLow a p + getMask (32 - p)) = blockLow a p + getMask (32 - p)"
    using blockHigh_range [OF assms, of a]
    by (simp add: js_ushr0_def ToUint32_take_bit take_bit_int_eq_self)
  show ?thesis
    unfolding getMaskRange_def Let_def low high blockAt_def
    using blockLow_range [OF assms, of a] blockHigh_range [OF assms, of a]
      getPrefixMask_range [OF assms] getMask_range [OF q]
    by (simp add: toString_Num)
qed

lemma blockLow_self_iff:
  assumes "0 \<le> p" "p \<le> 32" "0 \<le> a" "a < 2 ^ 32"
  shows "blockLow a p = a \<longleftrightarrow> take_bit (nat (32 - p)) a = 0"
proof
  assume e: "blockLow a p = a"
  show "take_bit (nat (32 - p)) a = 0"
  proof (rule bit_eqI)
    fix k
    have "bit a k \<longleftrightarrow> bit (blockLow a p) k" by (simp add: e)
    then show "bit (take_bit (nat (32 - p)) a) k \<longleftrightarrow> bit (0::int) k"
      using assms by (auto simp add: bit_take_bit_iff bit_blockLow)
  qed
next
  assume z: "take_bit (nat (32 - p)) a = 0"
  have t: "take_bit 32 a = a" using assms by (simp add: take_bit_int_eq_self)
  show "blockLow a p = a"
  proof (rule bit_eqI)
    fix k
    have "bit (take_bit (nat (32 - p)) a) k = False" by (simp add: z)
    then have 1: "bit a k \<Longrightarrow> nat (32 - p) \<le> k" by (auto simp add: bit_take_bit_iff)
    have "bit (take_bit 32 a) k = bit a k" by (simp add: t)
    then have 2: "bit a k \<Longrightarrow> k < 32" by (auto simp add: bit_take_bit_iff)
    show "bit (blockLow a p) k \<longleftrightarrow> bit a k"
      using assms 1 2 by (auto simp add: bit_blockLow)
  qed
qed

section \<open>Facts about \<^verbatim>\<open>getOptimalRange\<close>\<close>

lemma blockAt_sel [simp]:
  "ipLow (blockAt a p) = blockLow a p"
  "ipHigh (blockAt a p) = blockLow a p + getMask (32 - p)"
  "prefixMask (blockAt a p) = getPrefixMask p"
  "prefixSize (blockAt a p) = p"
  "invertedMask (blockAt a p) = getMask (32 - p)"
  "invertedMaskSize (blockAt a p) = 32 - p"
  "ipLowStr (blockAt a p) = ipStr (blockLow a p)"
  "ipHighStr (blockAt a p) = ipStr (blockLow a p + getMask (32 - p))"
  "prefixMaskStr (blockAt a p) = ipStr (getPrefixMask p)"
  "invertedMaskStr (blockAt a p) = ipStr (getMask (32 - p))"
  by (simp_all add: blockAt_def)

lemma fits_iff:
  "0 \<le> p \<Longrightarrow> p \<le> 32 \<Longrightarrow>
   fits a e p \<longleftrightarrow> blockLow a p = a \<and> a + getMask (32 - p) \<le> e"
  by (auto simp add: fits_def getMaskRange_eq)

lemma blockLow_self_mono:
  assumes "0 \<le> p" "p \<le> q" "q \<le> 32" "blockLow a p = a"
  shows "blockLow a q = a"
proof (rule bit_eqI)
  fix k
  have p: "p \<le> 32" and q: "0 \<le> q" using assms(1-3) by simp_all
  have "bit (blockLow a p) k \<longleftrightarrow> bit a k \<and> nat (32 - p) \<le> k \<and> k < 32"
    using assms(1) p by (rule bit_blockLow)
  then have "bit a k \<longleftrightarrow> bit a k \<and> nat (32 - p) \<le> k \<and> k < 32"
    by (simp only: assms(4))
  moreover have "nat (32 - q) \<le> nat (32 - p)" using assms(2) by simp
  moreover have "bit (blockLow a q) k \<longleftrightarrow> bit a k \<and> nat (32 - q) \<le> k \<and> k < 32"
    using q assms(3) by (rule bit_blockLow)
  ultimately show "bit (blockLow a q) k \<longleftrightarrow> bit a k"
    by auto
qed

lemma getMask_mono:
  assumes "0 \<le> s" "s \<le> t" "t \<le> 32"
  shows "getMask s \<le> getMask t"
proof -
  have "(2::int) ^ nat s \<le> 2 ^ nat t"
    using assms by (intro power_increasing) simp_all
  moreover have "getMask s = 2 ^ nat s - 1" "getMask t = 2 ^ nat t - 1"
    using assms by (simp_all add: getMask_eq)
  ultimately show ?thesis by linarith
qed

lemma fits_mono:
  assumes "0 \<le> p" "p \<le> q" "q \<le> 32" "fits a e p"
  shows "fits a e q"
proof -
  have p: "p \<le> 32" and q: "0 \<le> q" using assms(1-3) by simp_all
  have f: "blockLow a p = a" "a + getMask (32 - p) \<le> e"
    using assms(4) fits_iff [OF assms(1) p, of a e] by simp_all
  have "getMask (32 - q) \<le> getMask (32 - p)"
    using assms(1-3) by (intro getMask_mono) simp_all
  then have "a + getMask (32 - q) \<le> e" using f(2) by simp
  moreover have "blockLow a q = a"
    using assms(1-3) f(1) by (rule blockLow_self_mono)
  ultimately show ?thesis
    using fits_iff [OF q assms(3), of a e] by simp
qed

lemma blockLow_32: "blockLow a 32 = take_bit 32 a"
proof -
  have "getPrefixMask 32 = mask 32"
    by (simp add: getPrefixMask_eq mask_eq_exp_minus_1)
  then show ?thesis by (simp add: blockLow_def flip: take_bit_eq_mask)
qed

lemma fits_32: "fits a e 32 \<longleftrightarrow> 0 \<le> a \<and> a < 2 ^ 32 \<and> a \<le> e"
  by (auto simp add: fits_iff blockLow_32 getMask_eq take_bit_int_eq_self_iff)

lemma getOptimalRange_loop_result:
  "p \<le> 32 \<Longrightarrow>
   ((p < 0 \<or> \<not> fits a e p) \<and> getOptimalRange_loop a e p opt = Inr opt) \<or>
   (\<exists>q. 0 \<le> q \<and> q \<le> p \<and> (\<forall>k. q \<le> k \<and> k \<le> p \<longrightarrow> fits a e k) \<and> (q = 0 \<or> \<not> fits a e (q - 1)) \<and>
        getOptimalRange_loop a e p opt = Inr (Some (blockAt a q)))"
proof (induction a e p opt rule: getOptimalRange_loop.induct)
  case (1 a e p opt)
  show ?case
  proof (cases "0 \<le> p")
    case False
    then have "getOptimalRange_loop a e p opt = Inr opt"
      by (subst getOptimalRange_loop.simps) simp
    then show ?thesis using False by simp
  next
    case p: True
    have g: "getMaskRange a p = Inr (blockAt a p)"
      using p "1.prems" by (rule getMaskRange_eq)
    show ?thesis
    proof (cases "fits a e p")
      case False
      then have "\<not> (ipLow (blockAt a p) = a \<and> ipHigh (blockAt a p) \<le> e)"
        by (simp add: fits_def g)
      then have "getOptimalRange_loop a e p opt = Inr opt"
        using p by (subst getOptimalRange_loop.simps) (auto simp add: g)
      then show ?thesis using False by simp
    next
      case f: True
      then have c: "ipLow (blockAt a p) = a \<and> ipHigh (blockAt a p) \<le> e"
        by (simp add: fits_def g)
      have step: "getOptimalRange_loop a e p opt =
          getOptimalRange_loop a e (p - 1) (Some (blockAt a p))"
        using p c by (subst getOptimalRange_loop.simps) (simp add: g)
      have "p - 1 \<le> 32" using "1.prems" by simp
      note ih = "1.IH" [OF p g c this]
      show ?thesis
      proof (rule disjE [OF ih])
        assume stop: "(p - 1 < 0 \<or> \<not> fits a e (p - 1)) \<and>
          getOptimalRange_loop a e (p - 1) (Some (blockAt a p)) = Inr (Some (blockAt a p))"
        have "p = 0 \<or> \<not> fits a e (p - 1)" using stop p by auto
        moreover have "\<forall>k. p \<le> k \<and> k \<le> p \<longrightarrow> fits a e k" using f by auto
        ultimately have "0 \<le> p \<and> p \<le> p \<and> (\<forall>k. p \<le> k \<and> k \<le> p \<longrightarrow> fits a e k) \<and>
            (p = 0 \<or> \<not> fits a e (p - 1)) \<and>
            getOptimalRange_loop a e p opt = Inr (Some (blockAt a p))"
          using p stop step by simp
        then have "\<exists>q. 0 \<le> q \<and> q \<le> p \<and> (\<forall>k. q \<le> k \<and> k \<le> p \<longrightarrow> fits a e k) \<and>
            (q = 0 \<or> \<not> fits a e (q - 1)) \<and>
            getOptimalRange_loop a e p opt = Inr (Some (blockAt a q))" ..
        then show ?thesis ..
      next
        assume "\<exists>q. 0 \<le> q \<and> q \<le> p - 1 \<and> (\<forall>k. q \<le> k \<and> k \<le> p - 1 \<longrightarrow> fits a e k) \<and>
          (q = 0 \<or> \<not> fits a e (q - 1)) \<and>
          getOptimalRange_loop a e (p - 1) (Some (blockAt a p)) = Inr (Some (blockAt a q))"
        then obtain q where further: "0 \<le> q \<and> q \<le> p - 1 \<and> (\<forall>k. q \<le> k \<and> k \<le> p - 1 \<longrightarrow> fits a e k) \<and>
          (q = 0 \<or> \<not> fits a e (q - 1)) \<and>
          getOptimalRange_loop a e (p - 1) (Some (blockAt a p)) = Inr (Some (blockAt a q))" ..
        have "\<forall>k. q \<le> k \<and> k \<le> p \<longrightarrow> fits a e k"
        proof (intro allI impI)
          fix k assume "q \<le> k \<and> k \<le> p"
          then have "k = p \<or> (q \<le> k \<and> k \<le> p - 1)" by auto
          then show "fits a e k" using f further by auto
        qed
        moreover have "q \<le> p" using further by simp
        ultimately have "0 \<le> q \<and> q \<le> p \<and> (\<forall>k. q \<le> k \<and> k \<le> p \<longrightarrow> fits a e k) \<and>
            (q = 0 \<or> \<not> fits a e (q - 1)) \<and>
            getOptimalRange_loop a e p opt = Inr (Some (blockAt a q))"
          using further step by simp
        then have "\<exists>q. 0 \<le> q \<and> q \<le> p \<and> (\<forall>k. q \<le> k \<and> k \<le> p \<longrightarrow> fits a e k) \<and>
            (q = 0 \<or> \<not> fits a e (q - 1)) \<and>
            getOptimalRange_loop a e p opt = Inr (Some (blockAt a q))" ..
        then show ?thesis ..
      qed
    qed
  qed
qed

lemma getOptimalRange_cases:
  "(\<not> fits a e 32 \<and> getOptimalRange a e = Inr None) \<or>
   (\<exists>q. 0 \<le> q \<and> q \<le> 32 \<and> fits a e q \<and> (\<forall>k. 0 \<le> k \<and> k \<le> 32 \<and> fits a e k \<longrightarrow> q \<le> k) \<and>
        getOptimalRange a e = Inr (Some (blockAt a q)))"
proof -
  have "(32::int) \<le> 32" by simp
  note r = getOptimalRange_loop_result [OF this, of a e None]
  show ?thesis
  proof (rule disjE [OF r])
    assume "(32 < (0::int) \<or> \<not> fits a e 32) \<and> getOptimalRange_loop a e 32 None = Inr None"
    then have "\<not> fits a e 32 \<and> getOptimalRange a e = Inr None"
      by (simp add: getOptimalRange_def)
    then show ?thesis ..
  next
    assume "\<exists>q. 0 \<le> q \<and> q \<le> 32 \<and> (\<forall>k. q \<le> k \<and> k \<le> 32 \<longrightarrow> fits a e k) \<and>
      (q = 0 \<or> \<not> fits a e (q - 1)) \<and>
      getOptimalRange_loop a e 32 None = Inr (Some (blockAt a q))"
    then obtain q where some: "0 \<le> q \<and> q \<le> 32 \<and> (\<forall>k. q \<le> k \<and> k \<le> 32 \<longrightarrow> fits a e k) \<and>
      (q = 0 \<or> \<not> fits a e (q - 1)) \<and>
      getOptimalRange_loop a e 32 None = Inr (Some (blockAt a q))" ..
    have m: "\<forall>k. 0 \<le> k \<and> k \<le> 32 \<and> fits a e k \<longrightarrow> q \<le> k"
    proof (intro allI impI, rule ccontr)
      fix k assume k: "0 \<le> k \<and> k \<le> 32 \<and> fits a e k" and "\<not> q \<le> k"
      then have b: "k \<le> q - 1" "q - 1 \<le> 32" "q \<noteq> 0" using some by simp_all
      have "fits a e (q - 1)"
        using k b by (intro fits_mono [of k "q - 1" a e]) simp_all
      then show False using some b(3) by simp
    qed
    have "fits a e q" using some by simp
    then have "0 \<le> q \<and> q \<le> 32 \<and> fits a e q \<and> (\<forall>k. 0 \<le> k \<and> k \<le> 32 \<and> fits a e k \<longrightarrow> q \<le> k) \<and>
        getOptimalRange a e = Inr (Some (blockAt a q))"
      using some m by (simp add: getOptimalRange_def)
    then have "\<exists>q. 0 \<le> q \<and> q \<le> 32 \<and> fits a e q \<and> (\<forall>k. 0 \<le> k \<and> k \<le> 32 \<and> fits a e k \<longrightarrow> q \<le> k) \<and>
        getOptimalRange a e = Inr (Some (blockAt a q))" ..
    then show ?thesis ..
  qed
qed

lemma getOptimalRange_no_error: "getOptimalRange c e \<noteq> Inl x"
  using getOptimalRange_cases [of c e] by auto

lemma getOptimalRange_Some:
  assumes "getOptimalRange c e = Inr (Some r)"
  shows "\<exists>q. 0 \<le> q \<and> q \<le> 32 \<and> fits c e q \<and> r = blockAt c q"
  using getOptimalRange_cases [of c e] assms by auto

lemma getOptimalRange_Some_bounds:
  assumes "getOptimalRange c e = Inr (Some r)"
  shows "ipLow r = c" and "c \<le> ipHigh r" and "ipHigh r \<le> e"
proof -
  obtain q where q: "0 \<le> q" "q \<le> 32" "fits c e q" "r = blockAt c q"
    using getOptimalRange_Some [OF assms] by auto
  have f: "blockLow c q = c" "c + getMask (32 - q) \<le> e"
    using q(3) fits_iff [OF q(1,2), of c e] by simp_all
  have "0 \<le> getMask (32 - q)"
    using q by (intro getMask_range) simp_all
  then show "ipLow r = c" and "c \<le> ipHigh r" and "ipHigh r \<le> e"
    using f by (simp_all add: q(4))
qed

lemma getOptimalRange_None_iff: "getOptimalRange c e = Inr None \<longleftrightarrow> \<not> fits c e 32"
proof
  assume n: "getOptimalRange c e = Inr None"
  show "\<not> fits c e 32"
    using getOptimalRange_cases [of c e] by (simp add: n)
next
  assume n: "\<not> fits c e 32"
  have "\<not> (\<exists>q. 0 \<le> q \<and> q \<le> 32 \<and> fits c e q)"
    using n fits_mono [of _ 32 c e] by auto
  then show "getOptimalRange c e = Inr None"
    using getOptimalRange_cases [of c e] by blast
qed

text \<open>The loop of \<^verbatim>\<open>calculate\<close> terminates: every block found ends at or after the current address.\<close>

termination calculate_loop
proof (relation "measure (\<lambda>(ipCurNum, ipEndNum, rangeCollection). nat (ipEndNum + 1 - ipCurNum))")
  show "wf (measure (\<lambda>(ipCurNum, ipEndNum, rangeCollection). nat (ipEndNum + 1 - ipCurNum)))"
    by simp
next
  fix ipCurNum ipEndNum :: int and rangeCollection :: "SubnetAnalysis list"
    and x :: "SubnetAnalysis option" and r :: SubnetAnalysis
  assume "ipCurNum \<le> ipEndNum" and "getOptimalRange ipCurNum ipEndNum = Inr x" and "x = Some r"
  then have "ipCurNum \<le> ipHigh r" "ipCurNum \<le> ipEndNum"
    using getOptimalRange_Some_bounds(2) [of ipCurNum ipEndNum r] by simp_all
  then show "((ipHigh r + 1, ipEndNum, rangeCollection @ [r]), (ipCurNum, ipEndNum, rangeCollection))
      \<in> measure (\<lambda>(ipCurNum, ipEndNum, rangeCollection). nat (ipEndNum + 1 - ipCurNum))"
    by simp
qed

declare calculate_loop.simps [simp del]


section \<open>Facts about \<^verbatim>\<open>calculate\<close>\<close>

lemma calculate_loop_result:
  "0 \<le> c \<Longrightarrow> c \<le> e \<Longrightarrow> e < 2 ^ 32 \<Longrightarrow>
   \<exists>bs. calculate_loop c e acc = Inr (Some (acc @ bs)) \<and> tiles c e bs"
proof (induction c e acc rule: calculate_loop.induct)
  case (1 c e acc)
  have "fits c e 32" using "1.prems" by (simp add: fits_32)
  then have "getOptimalRange c e \<noteq> Inr None"
    by (simp add: getOptimalRange_None_iff)
  then obtain r where r: "getOptimalRange c e = Inr (Some r)"
    using getOptimalRange_no_error [of c e] by (cases "getOptimalRange c e") auto
  note b = getOptimalRange_Some_bounds [OF r]
  have step: "calculate_loop c e acc = calculate_loop (ipHigh r + 1) e (acc @ [r])"
    using "1.prems"(2) by (subst calculate_loop.simps) (simp add: r)
  show ?case
  proof (cases "ipHigh r + 1 \<le> e")
    case True
    have "0 \<le> ipHigh r + 1" using b "1.prems" by simp
    from "1.IH" [OF "1.prems"(2) r refl this True "1.prems"(3)]
    obtain bs where bs: "calculate_loop (ipHigh r + 1) e (acc @ [r]) = Inr (Some ((acc @ [r]) @ bs))"
      "tiles (ipHigh r + 1) e bs" by auto
    then obtain x xs where x: "bs = x # xs" by (cases bs) auto
    have "tiles c e (r # bs)" using bs(2) b by (simp add: x)
    moreover have "calculate_loop c e acc = Inr (Some (acc @ r # bs))"
      using step bs(1) by simp
    ultimately show ?thesis by blast
  next
    case False
    then have h: "ipHigh r = e" using b by simp
    have "calculate_loop (ipHigh r + 1) e (acc @ [r]) = Inr (Some (acc @ [r]))"
      by (subst calculate_loop.simps) (simp add: h)
    moreover have "tiles c e [r]" using b h by simp
    ultimately show ?thesis using step by metis
  qed
qed

lemma tiles_bounds: "tiles s e bs \<Longrightarrow> \<forall>b\<in>set bs. s \<le> ipLow b \<and> ipLow b \<le> ipHigh b \<and> ipHigh b \<le> e"
  by (induction s e bs rule: tiles.induct) auto

lemma tiles_nonempty: "tiles s e bs \<Longrightarrow> bs \<noteq> []"
  by auto

lemma tiles_hd_last: "tiles s e bs \<Longrightarrow> ipLow (hd bs) = s \<and> ipHigh (last bs) = e"
  by (induction s e bs rule: tiles.induct) auto

lemma tiles_union: "tiles s e bs \<Longrightarrow> (\<Union>b\<in>set bs. {ipLow b..ipHigh b}) = {s..e}"
proof (induction s e bs rule: tiles.induct)
  case (3 s e b c bs)
  then have t: "tiles (ipHigh b + 1) e (c # bs)" and l: "ipLow b = s" "s \<le> ipHigh b" by simp_all
  have u: "(\<Union>b\<in>set (c # bs). {ipLow b..ipHigh b}) = {ipHigh b + 1..e}"
    using "3.IH" t by simp
  have "ipHigh b + 1 \<le> e" using tiles_bounds [OF t] by fastforce
  then have "{s..ipHigh b} \<union> {ipHigh b + 1..e} = {s..e}" using l by auto
  then show ?case using u l by simp
qed simp_all

lemma tiles_next:
  "tiles s e bs \<Longrightarrow> Suc i < length bs \<Longrightarrow> ipLow (bs ! Suc i) = ipHigh (bs ! i) + 1"
proof (induction s e bs arbitrary: i rule: tiles.induct)
  case (3 s e b c bs)
  then have t: "tiles (ipHigh b + 1) e (c # bs)" by simp
  show ?case
  proof (cases i)
    case 0
    then show ?thesis using tiles_hd_last [OF t] by simp
  next
    case (Suc j)
    then show ?thesis using "3.IH" [OF t, of j] "3.prems"(2) by simp
  qed
qed simp_all

lemma tiles_apart: "tiles s e bs \<Longrightarrow> sorted_wrt (\<lambda>a b. ipHigh a < ipLow b) bs"
proof (induction s e bs rule: tiles.induct)
  case (3 s e b c bs)
  then have t: "tiles (ipHigh b + 1) e (c # bs)" by simp
  have "\<forall>x\<in>set (c # bs). ipHigh b < ipLow x"
    using tiles_bounds [OF t] by fastforce
  then show ?case using "3.IH" [OF t] by simp
qed simp_all

lemma getMaskRange_bitwise:
  assumes "0 \<le> p" "p \<le> 32"
  shows "ipHigh (blockAt a p) = ipLow (blockAt a p) OR invertedMask (blockAt a p)"
    and "ipLow (blockAt a p) = ipLow (blockAt a p) AND prefixMask (blockAt a p)"
proof -
  show "ipHigh (blockAt a p) = ipLow (blockAt a p) OR invertedMask (blockAt a p)"
    using blockLow_plus_or [OF assms, of a] by simp
  have "blockLow a p AND getPrefixMask p = blockLow a p"
    by (simp add: blockLow_def and.assoc)
  then show "ipLow (blockAt a p) = ipLow (blockAt a p) AND prefixMask (blockAt a p)"
    by simp
qed

lemma blockLow_in_range:
  "0 \<le> a \<Longrightarrow> a < 2 ^ 32 \<Longrightarrow> blockLow a p = a AND getPrefixMask p"
  by (simp add: blockLow_def take_bit_int_eq_self)

lemma subnet_24_example:
  "calculateSubnetMask (Str ''2.3.4.5'') 24 =
     Inr (Some \<lparr> ipLow = 33752064, ipLowStr = ''2.3.4.0'',
                 ipHigh = 33752319, ipHighStr = ''2.3.4.255'',
                 prefixMask = 4294967040, prefixMaskStr = ''255.255.255.0'',
                 prefixSize = 24,
                 invertedMask = 255, invertedMaskStr = ''0.0.0.255'',
                 invertedMaskSize = 8 \<rparr>)"
  by code_simp

lemma subnet_32_example:
  "calculateSubnetMask (Str ''1.2.3.4'') 32 =
     Inr (Some \<lparr> ipLow = 16909060, ipLowStr = ''1.2.3.4'',
                 ipHigh = 16909060, ipHighStr = ''1.2.3.4'',
                 prefixMask = 4294967295, prefixMaskStr = ''255.255.255.255'',
                 prefixSize = 32,
                 invertedMask = 0, invertedMaskStr = ''0.0.0.0'',
                 invertedMaskSize = 0 \<rparr>)"
  by code_simp

section \<open>Facts about the address codec\<close>

lemma isDigit_iff: "isDigit c \<longleftrightarrow> (\<exists>d<10. c = digitChar d)"
proof
  assume "isDigit c"
  then have r: "48 \<le> (of_char c :: nat)" "(of_char c :: nat) \<le> 57"
    by (simp_all add: isDigit_def)
  have "(of_char c :: nat) - 48 < 10" using r by arith
  moreover have "48 + ((of_char c :: nat) - 48) = of_char c" using r by arith
  then have "c = digitChar (of_char c - 48)"
    by (simp add: digitChar_def)
  ultimately show "\<exists>d<10. c = digitChar d" by blast
next
  assume "\<exists>d<10. c = digitChar d"
  then show "isDigit c" by (auto simp add: isDigit_def digitChar_def)
qed

lemma digitVal_digitChar: "d < 10 \<Longrightarrow> digitVal (digitChar d) = int d"
  by (simp add: digitVal_def digitChar_def)

lemma isDigit_not_dot: "isDigit c \<Longrightarrow> c \<noteq> CHR ''.''"
  by (auto simp add: isDigit_def)

lemma digitVal_range: "isDigit c \<Longrightarrow> 0 \<le> digitVal c \<and> digitVal c < 10"
  by (auto simp add: isDigit_iff digitVal_digitChar)

lemma digitChar_digitVal: "isDigit c \<Longrightarrow> digitChar (nat (digitVal c)) = c"
  by (auto simp add: isDigit_iff digitVal_digitChar)

lemma digitChar_0: "digitChar 0 = CHR ''0''"
  by code_simp

lemma parseInt_Nil [simp]: "parseInt [] = 0"
  by (simp add: parseInt_def)

lemma parseInt_snoc [simp]: "parseInt (s @ [c]) = parseInt s * 10 + digitVal c"
  by (simp add: parseInt_def)

lemma parseInt_nonneg: "list_all isDigit s \<Longrightarrow> 0 \<le> parseInt s"
  by (induction s rule: rev_induct) (auto dest: digitVal_range)

lemma numToString_digits: "list_all isDigit (numToString n)"
proof (induction n rule: numToString.induct)
  case (1 n)
  show ?case
  proof (cases "n < 10")
    case True
    then have "isDigit (digitChar n)" unfolding isDigit_iff by blast
    then show ?thesis using True by (subst numToString.simps) simp
  next
    case False
    have "n mod 10 < 10" by simp
    then have "isDigit (digitChar (n mod 10))" unfolding isDigit_iff by blast
    then show ?thesis using False 1 by (subst numToString.simps) simp
  qed
qed

lemma numToString_parse: "parseInt (numToString n) = int n"
proof (induction n rule: numToString.induct)
  case (1 n)
  show ?case
  proof (cases "n < 10")
    case True
    then show ?thesis
      using parseInt_snoc [of "[]" "digitChar n"]
      by (subst numToString.simps) (simp add: digitVal_digitChar)
  next
    case False
    then show ?thesis using 1
      by (subst numToString.simps) (simp add: digitVal_digitChar zmod_int zdiv_int)
  qed
qed

lemma numToString_length:
  "n < 1000 \<Longrightarrow> 1 \<le> length (numToString n) \<and> length (numToString n) \<le> 3"
proof -
  assume n: "n < 1000"
  have a: "\<And>k. k < 10 \<Longrightarrow> length (numToString k) = 1"
    by (subst numToString.simps) simp
  have b: "\<And>k. 10 \<le> k \<Longrightarrow> k < 100 \<Longrightarrow> length (numToString k) = 2"
    by (subst numToString.simps) (simp add: a)
  have c: "\<And>k. 100 \<le> k \<Longrightarrow> k < 1000 \<Longrightarrow> length (numToString k) = 3"
    by (subst numToString.simps) (simp add: b)
  consider "n < 10" | "10 \<le> n" "n < 100" | "100 \<le> n" by linarith
  then show ?thesis using a [of n] b [of n] c [of n] n by cases simp_all
qed

lemma numToString_no_dot: "CHR ''.'' \<notin> set (numToString n)"
  using numToString_digits [of n] isDigit_not_dot by (auto simp add: list_all_iff)

lemma numToString_group: "n < 256 \<Longrightarrow> matchGroup (numToString n)"
  using numToString_length [of n] by (simp add: matchGroup_def numToString_digits)

lemma parseInt_pos:
  "s \<noteq> [] \<Longrightarrow> list_all isDigit s \<Longrightarrow> hd s \<noteq> CHR ''0'' \<Longrightarrow> 1 \<le> parseInt s"
proof (induction s rule: rev_induct)
  case Nil
  then show ?case by simp
next
  case (snoc c s)
  show ?case
  proof (cases "s = []")
    case True
    then have "isDigit c" "c \<noteq> CHR ''0''" using snoc.prems by simp_all
    then obtain d where d: "d < 10" "c = digitChar d" "d \<noteq> 0"
      using digitChar_0 by (auto simp add: isDigit_iff)
    then show ?thesis using True parseInt_snoc [of "[]" c] by (simp add: digitVal_digitChar)
  next
    case False
    then have "1 \<le> parseInt s" using snoc by simp
    moreover have "0 \<le> digitVal c" using snoc.prems digitVal_range [of c] by simp
    ultimately show ?thesis by simp
  qed
qed

lemma numToString_unparse:
  "s \<noteq> [] \<Longrightarrow> list_all isDigit s \<Longrightarrow> noLeadingZero s \<Longrightarrow> numToString (nat (parseInt s)) = s"
proof (induction s rule: rev_induct)
  case Nil
  then show ?case by simp
next
  case (snoc c s)
  have c: "isDigit c" using snoc.prems by simp
  then have v: "0 \<le> digitVal c" "digitVal c < 10" using digitVal_range by simp_all
  show ?case
  proof (cases "s = []")
    case True
    have "nat (digitVal c) < 10" using v by simp
    then have "numToString (nat (digitVal c)) = [digitChar (nat (digitVal c))]"
      by (subst numToString.simps) simp
    then show ?thesis using True parseInt_snoc [of "[]" c] c by (simp add: digitChar_digitVal)
  next
    case False
    then have h: "hd s \<noteq> CHR ''0''" using snoc.prems(3) by (cases s) (auto simp add: noLeadingZero_def)
    then have nz: "noLeadingZero s" by (simp add: noLeadingZero_def)
    have s: "list_all isDigit s" using snoc.prems by simp
    have pos: "1 \<le> parseInt s" using False s h by (rule parseInt_pos)
    have ih: "numToString (nat (parseInt s)) = s" using snoc.IH False s nz by simp
    let ?n = "nat (parseInt s * 10 + digitVal c)"
    have n: "?n = nat (parseInt s) * 10 + nat (digitVal c)"
      using pos v by (simp add: nat_add_distrib nat_mult_distrib)
    have big: "\<not> ?n < 10" using pos v by simp
    have dv: "?n div 10 = nat (parseInt s)" "?n mod 10 = nat (digitVal c)"
      using v by (simp_all add: n)
    have "numToString ?n = numToString (?n div 10) @ [digitChar (?n mod 10)]"
      using big by (subst numToString.simps) simp
    then show ?thesis using c by (simp add: dv ih digitChar_digitVal)
  qed
qed

lemma split_dot_not_Nil [simp]: "split_dot s \<noteq> []"
  by (cases s) (simp_all add: Let_def)

lemma split_dot_no_dot: "CHR ''.'' \<notin> set p \<Longrightarrow> split_dot p = [p]"
  by (induction p) (auto simp add: Let_def)

lemma split_dot_append:
  "CHR ''.'' \<notin> set p \<Longrightarrow> split_dot (p @ CHR ''.'' # rest) = p # split_dot rest"
  by (induction p) (auto simp add: Let_def)

lemma joinDot_split_dot: "joinDot (split_dot s) = s"
proof (induction s)
  case Nil
  then show ?case by simp
next
  case (Cons c s)
  obtain p ps where ps: "split_dot s = p # ps"
    using split_dot_not_Nil [of s] by (cases "split_dot s") auto
  show ?case
  proof (cases "c = CHR ''.''")
    case True
    then show ?thesis using Cons by (simp add: Let_def ps)
  next
    case False
    then show ?thesis using Cons by (cases ps) (simp_all add: Let_def ps)
  qed
qed

lemma ipStr_eq:
  "ipStr n = numToString (nat (n div 256 div 256 div 256 mod 256)) @ CHR ''.'' #
             numToString (nat (n div 256 div 256 mod 256)) @ CHR ''.'' #
             numToString (nat (n div 256 mod 256)) @ CHR ''.'' #
             numToString (nat (n mod 256))"
  by (simp add: ipStr_def numeral_3_eq_3 Let_def)

lemma split_dot_groups:
  assumes "CHR ''.'' \<notin> set a" "CHR ''.'' \<notin> set b" "CHR ''.'' \<notin> set c" "CHR ''.'' \<notin> set d"
  shows "split_dot (a @ CHR ''.'' # b @ CHR ''.'' # c @ CHR ''.'' # d) = [a, b, c, d]"
  using assms by (simp add: split_dot_append split_dot_no_dot)

lemma split_dot_ipStr:
  "split_dot (ipStr n) =
     [numToString (nat (n div 256 div 256 div 256 mod 256)),
      numToString (nat (n div 256 div 256 mod 256)),
      numToString (nat (n div 256 mod 256)),
      numToString (nat (n mod 256))]"
  unfolding ipStr_eq by (rule split_dot_groups) (rule numToString_no_dot)+

lemma octets_compose:
  assumes "0 \<le> n" "n < 2 ^ 32"
  shows "((n div 256 div 256 div 256 mod 256 * 256 + n div 256 div 256 mod 256) * 256
           + n div 256 mod 256) * 256 + n mod 256 = (n::int)"
proof -
  have "n div 256 div 256 div 256 < 256" "0 \<le> n div 256 div 256 div 256"
    using assms by simp_all
  then have "n div 256 div 256 div 256 mod 256 = n div 256 div 256 div 256" by simp
  then show ?thesis by simp
qed

lemma div_mod_256:
  fixes x d :: int
  assumes "0 \<le> d" "d \<le> 255"
  shows "(x * 256 + d) div 256 = x" and "(x * 256 + d) mod 256 = d"
  using assms by simp_all

lemma octets_decompose:
  fixes a b c d :: int
  assumes "0 \<le> a" "a \<le> 255" "0 \<le> b" "b \<le> 255" "0 \<le> c" "c \<le> 255" "0 \<le> d" "d \<le> 255"
  defines "n \<equiv> ((a * 256 + b) * 256 + c) * 256 + d"
  shows "n mod 256 = d" "n div 256 mod 256 = c" "n div 256 div 256 mod 256 = b"
    "n div 256 div 256 div 256 mod 256 = a" "0 \<le> n" "n < 2 ^ 32"
proof -
  have 1: "n div 256 = (a * 256 + b) * 256 + c"
    unfolding n_def using assms(7,8) by (rule div_mod_256(1))
  have 2: "n div 256 div 256 = a * 256 + b"
    unfolding 1 using assms(5,6) by (rule div_mod_256(1))
  have 3: "n div 256 div 256 div 256 = a"
    unfolding 2 using assms(3,4) by (rule div_mod_256(1))
  show "n mod 256 = d"
    unfolding n_def using assms(7,8) by (rule div_mod_256(2))
  show "n div 256 mod 256 = c"
    unfolding 1 using assms(5,6) by (rule div_mod_256(2))
  show "n div 256 div 256 mod 256 = b"
    unfolding 2 using assms(3,4) by (rule div_mod_256(2))
  show "n div 256 div 256 div 256 mod 256 = a"
    unfolding 3 using assms(1,2) by simp
  show "0 \<le> n" "n < 2 ^ 32"
    using assms(1-8) by (simp_all add: n_def)
qed

lemma octet_string:
  assumes "0 \<le> k" "k < 256"
  shows "matchGroup (numToString (nat k))" and "parseInt (numToString (nat k)) = k"
  using assms by (simp_all add: numToString_group numToString_parse)

lemma toString_toDecimal:
  assumes "isDecimalIp n"
  shows "toString (Num n) = Inr (ipStr n)" and "isIp (ipStr n)"
    and "toDecimal (Str (ipStr n)) = Inr n"
proof -
  have n: "0 \<le> n" "n < 2 ^ 32" using assms by (simp_all add: isDecimalIp_def)
  show "toString (Num n) = Inr (ipStr n)" using n by (rule toString_Num)
  have r: "0 \<le> x mod 256" "x mod 256 < 256" "x mod 256 \<le> 255" for x :: int
    by simp_all
  have g: "matchGroup (numToString (nat (x mod 256)))" for x :: int
    using r(1,2) [of x] by (rule octet_string(1))
  have v: "parseInt (numToString (nat (x mod 256))) = x mod 256" for x :: int
    using r(1,2) [of x] by (rule octet_string(2))
  have m: "ipMatch (ipStr n) = Some (split_dot (ipStr n))"
    by (simp add: ipMatch_def) (simp add: split_dot_ipStr g)
  show ip: "isIp (ipStr n)"
    unfolding isIp_def m by (simp add: split_dot_ipStr v r not_less)
  have e: "((parseInt (numToString (nat (n div 256 div 256 div 256 mod 256))) * 256
             + parseInt (numToString (nat (n div 256 div 256 mod 256)))) * 256
             + parseInt (numToString (nat (n div 256 mod 256)))) * 256
             + parseInt (numToString (nat (n mod 256))) = n"
    unfolding v by (rule octets_compose [OF n])
  have "toDecimal (Str (ipStr n)) =
      Inr (((parseInt (split_dot (ipStr n) ! 0) * 256 + parseInt (split_dot (ipStr n) ! 1)) * 256
             + parseInt (split_dot (ipStr n) ! 2)) * 256 + parseInt (split_dot (ipStr n) ! 3))"
    unfolding toDecimal_def by (simp only: IPAny.case ip Let_def not_True_eq_False if_False)
  also have "\<dots> = Inr n"
    unfolding split_dot_ipStr by (simp only: nth_Cons_0 nth_Cons_numeral nth_Cons_Suc One_nat_def
      numeral_2_eq_2 numeral_3_eq_3 e)
  finally show "toDecimal (Str (ipStr n)) = Inr n" .
qed

lemma isIp_parts:
  assumes "isIp s"
  obtains a b c d where "split_dot s = [a, b, c, d]"
    "matchGroup a" "matchGroup b" "matchGroup c" "matchGroup d"
    "parseInt a \<le> 255" "parseInt b \<le> 255" "parseInt c \<le> 255" "parseInt d \<le> 255"
proof -
  have l: "length (split_dot s) = 4" and g: "list_all matchGroup (split_dot s)"
    and v: "list_all (\<lambda>p. \<not> (parseInt p > 255 \<or> parseInt p < 0)) (split_dot s)"
    using assms by (auto simp add: isIp_def ipMatch_def Let_def split: if_splits)
  obtain a b c d where e: "split_dot s = [a, b, c, d]"
    using l by (auto simp add: numeral_eq_Suc length_Suc_conv)
  show ?thesis
    using g v by (intro that [OF e]) (simp_all add: e)
qed

lemma matchGroup_nonneg: "matchGroup g \<Longrightarrow> 0 \<le> parseInt g"
  by (simp add: matchGroup_def parseInt_nonneg)

lemma toDecimal_range:
  assumes "toDecimal x = Inr n"
  shows "0 \<le> n" and "n < 2 ^ 32"
proof -
  have "0 \<le> n \<and> n < 2 ^ 32"
  proof (cases x)
    case (Num k)
    then show ?thesis using assms by (auto simp add: toDecimal_def isDecimalIp_def split: if_splits)
  next
    case (Str s)
    then have ip: "isIp s" using assms by (auto simp add: toDecimal_def split: if_splits)
    from ip obtain a b c d where p: "split_dot s = [a, b, c, d]"
      "matchGroup a" "matchGroup b" "matchGroup c" "matchGroup d"
      "parseInt a \<le> 255" "parseInt b \<le> 255" "parseInt c \<le> 255" "parseInt d \<le> 255"
      by (rule isIp_parts)
    have n: "n = ((parseInt a * 256 + parseInt b) * 256 + parseInt c) * 256 + parseInt d"
      using assms Str ip by (simp add: toDecimal_def p(1))
    show ?thesis
      unfolding n
      using octets_decompose(5,6) [of "parseInt a" "parseInt b" "parseInt c" "parseInt d"]
        p(2-9) matchGroup_nonneg by simp
  qed
  then show "0 \<le> n" and "n < 2 ^ 32" by simp_all
qed

lemma group_unparse:
  "matchGroup g \<Longrightarrow> noLeadingZero g \<Longrightarrow> numToString (nat (parseInt g)) = g"
  by (rule numToString_unparse) (auto simp add: matchGroup_def)

lemma toDecimal_toString:
  assumes "canonicalIp s" "toDecimal (Str s) = Inr n"
  shows "toString (Num n) = Inr s"
proof -
  have ip: "isIp s" and z: "list_all noLeadingZero (split_dot s)"
    using assms(1) by (simp_all add: canonicalIp_def)
  from ip obtain a b c d where p: "split_dot s = [a, b, c, d]"
    "matchGroup a" "matchGroup b" "matchGroup c" "matchGroup d"
    "parseInt a \<le> 255" "parseInt b \<le> 255" "parseInt c \<le> 255" "parseInt d \<le> 255"
    by (rule isIp_parts)
  have n: "n = ((parseInt a * 256 + parseInt b) * 256 + parseInt c) * 256 + parseInt d"
    using assms(2) ip by (simp add: toDecimal_def p(1))
  have g: "0 \<le> parseInt a" "0 \<le> parseInt b" "0 \<le> parseInt c" "0 \<le> parseInt d"
    using p(2-5) by (simp_all add: matchGroup_nonneg)
  note o = octets_decompose [OF g(1) p(6) g(2) p(7) g(3) p(8) g(4) p(9), folded n]
  have u: "numToString (nat (parseInt a)) = a" "numToString (nat (parseInt b)) = b"
    "numToString (nat (parseInt c)) = c" "numToString (nat (parseInt d)) = d"
    using z p(2-5) by (simp_all add: p(1) group_unparse)
  have "ipStr n = a @ CHR ''.'' # b @ CHR ''.'' # c @ CHR ''.'' # d"
    unfolding ipStr_eq o(1-4) u ..
  also have "\<dots> = joinDot (split_dot s)" by (simp add: p(1))
  also have "\<dots> = s" by (rule joinDot_split_dot)
  finally have "ipStr n = s" .
  then show ?thesis using toString_Num [OF o(5,6)] by simp
qed

lemma leading_zero_example:
  "isIp ''01.2.3.4''" "toDecimal (Str ''01.2.3.4'') = Inr 16909060"
  "toString (Num 16909060) = Inr ''1.2.3.4''"
  by code_simp+

section \<open>Evaluating \<^verbatim>\<open>getOptimalRange\<close> and \<^verbatim>\<open>calculate\<close>\<close>

lemma getOptimalRange_at:
  assumes "0 \<le> q" "q \<le> 32" "fits a e q" "q = 0 \<or> \<not> fits a e (q - 1)"
  shows "getOptimalRange a e = Inr (Some (blockAt a q))"
proof -
  have "fits a e 32" using fits_mono [of q 32 a e] assms(1-3) by simp
  then obtain q' where q': "0 \<le> q'" "q' \<le> 32" "fits a e q'"
      "\<forall>k. 0 \<le> k \<and> k \<le> 32 \<and> fits a e k \<longrightarrow> q' \<le> k"
      "getOptimalRange a e = Inr (Some (blockAt a q'))"
    using getOptimalRange_cases [of a e] by auto
  have le: "q' \<le> q" using q'(4) assms(1-3) by simp
  have "q' = q"
  proof (rule ccontr)
    assume "q' \<noteq> q"
    then have "q' \<le> q - 1" "q - 1 \<le> 32" "q \<noteq> 0" using le q'(1) assms(2) by simp_all
    then have "fits a e (q - 1)"
      using q'(1,3) by (intro fits_mono [of q' "q - 1"]) simp_all
    then show False using assms(4) \<open>q \<noteq> 0\<close> by simp
  qed
  then show ?thesis using q'(5) by simp
qed

lemma blockAt_167772671_32:
  "blockAt 167772671 32 =
     \<lparr> ipLow = 167772671, ipLowStr = ''10.0.1.255'',
       ipHigh = 167772671, ipHighStr = ''10.0.1.255'',
       prefixMask = 4294967295, prefixMaskStr = ''255.255.255.255'',
       prefixSize = 32,
       invertedMask = 0, invertedMaskStr = ''0.0.0.0'',
       invertedMaskSize = 0 \<rparr>"
  by code_simp

lemma blockAt_167772672_23:
  "blockAt 167772672 23 =
     \<lparr> ipLow = 167772672, ipLowStr = ''10.0.2.0'',
       ipHigh = 167773183, ipHighStr = ''10.0.3.255'',
       prefixMask = 4294966784, prefixMaskStr = ''255.255.254.0'',
       prefixSize = 23,
       invertedMask = 511, invertedMaskStr = ''0.0.1.255'',
       invertedMaskSize = 9 \<rparr>"
  by code_simp

lemma toDecimal_examples:
  "toDecimal (Str ''10.0.1.255'') = Inr 167772671"
  "toDecimal (Str ''10.0.3.255'') = Inr 167773183"
  "toDecimal (Str ''1.2.3.4'') = Inr 16909060"
  "toDecimal (Str ''1.2.3.3'') = Inr 16909059"
  "toDecimal (Str ''256.1.1.1'') = Inl (NotAnIpAddress (Str ''256.1.1.1''))"
  by code_simp+

lemma calculate_range_example:
  "calculate (Str ''10.0.1.255'') (Str ''10.0.3.255'') =
     Inr (Some [blockAt 167772671 32, blockAt 167772672 23])"
proof -
  have a: "getOptimalRange 167772671 167773183 = Inr (Some (blockAt 167772671 32))"
    by (rule getOptimalRange_at) (simp_all add: fits_iff blockLow_def getPrefixMask_eq getMask_eq)
  have b: "getOptimalRange 167772672 167773183 = Inr (Some (blockAt 167772672 23))"
    by (rule getOptimalRange_at) (simp_all add: fits_iff blockLow_def getPrefixMask_eq getMask_eq)
  have h: "ipHigh (blockAt 167772671 32) + 1 = 167772672"
    "ipHigh (blockAt 167772672 23) + 1 = 167773184"
    by (simp_all add: blockLow_def getPrefixMask_eq getMask_eq)
  have "calculate_loop 167773184 167773183 [blockAt 167772671 32, blockAt 167772672 23] =
      Inr (Some [blockAt 167772671 32, blockAt 167772672 23])"
    by (subst calculate_loop.simps) simp
  then have "calculate_loop 167772672 167773183 [blockAt 167772671 32] =
      Inr (Some [blockAt 167772671 32, blockAt 167772672 23])"
    by (subst calculate_loop.simps) (simp add: b h del: blockAt_sel)
  then have "calculate_loop 167772671 167773183 [] =
      Inr (Some [blockAt 167772671 32, blockAt 167772672 23])"
    by (subst calculate_loop.simps) (simp add: a h del: blockAt_sel)
  then show ?thesis
    by (simp add: calculate_def toDecimal_examples)
qed

lemma calculate_valid:
  assumes "toDecimal ipStart = Inr s" "toDecimal ipEnd = Inr e" "s \<le> e"
  shows "\<exists>bs. calculate ipStart ipEnd = Inr (Some bs) \<and> tiles s e bs"
proof -
  have "0 \<le> s" using assms(1) by (rule toDecimal_range(1))
  moreover have "e < 2 ^ 32" using assms(2) by (rule toDecimal_range(2))
  ultimately obtain bs where "calculate_loop s e [] = Inr (Some ([] @ bs))" "tiles s e bs"
    using calculate_loop_result [of s e "[]"] assms(3) by blast
  then show ?thesis using assms by (auto simp add: calculate_def)
qed

lemma calculate_invalid:
  "toDecimal ipStart = Inl x \<Longrightarrow> calculate ipStart ipEnd = Inr None"
  "toDecimal ipEnd = Inl x \<Longrightarrow> calculate ipStart ipEnd = Inr None"
  "toDecimal ipStart = Inr s \<Longrightarrow> toDecimal ipEnd = Inr e \<Longrightarrow> e < s \<Longrightarrow>
     calculate ipStart ipEnd = Inr None"
  by (auto simp add: calculate_def split: sum.splits)

section \<open>Facts about \<^verbatim>\<open>calculateCIDRPrefix\<close>\<close>

lemma ToUint32_add_right: "ToUint32 (a + ToUint32 b) = ToUint32 (a + b)"
  by (simp add: ToUint32_def mod_add_right_eq)

lemma next_prefix:
  assumes "j < 32"
  shows "js_ushr0 (2 ^ 32 - 2 ^ Suc j + js_shl 1 (int j)) = 2 ^ 32 - 2 ^ j"
proof -
  have m: "int j mod 32 = int j" using assms by simp
  have "js_ushr0 (2 ^ 32 - 2 ^ Suc j + js_shl 1 (int j)) =
      ToUint32 (2 ^ 32 - 2 ^ Suc j + ToUint32 (ToInt32 (js_shl 1 (int j))))"
    by (simp only: js_ushr0_def ToUint32_add_right ToUint32_ToInt32)
  also have "ToUint32 (ToInt32 (js_shl 1 (int j))) = 2 ^ j"
    using ushr_shl1 [of "int j"] by (simp add: js_ushr0_def ToUint32_ToInt32 m)
  also have "2 ^ 32 - 2 ^ Suc j + 2 ^ j = (2 ^ 32 - 2 ^ j :: int)" by simp
  also have "ToUint32 (2 ^ 32 - 2 ^ j) = 2 ^ 32 - 2 ^ j"
  proof -
    have "(2::int) ^ j \<le> 2 ^ 32" using assms by (intro power_increasing) simp_all
    moreover have "(0::int) < 2 ^ j" by simp
    ultimately have "0 \<le> (2 ^ 32 - 2 ^ j :: int)" "(2 ^ 32 - 2 ^ j :: int) < 2 ^ 32" by simp_all
    then show ?thesis unfolding ToUint32_def by (rule mod_pos_pos_trivial)
  qed
  finally show ?thesis .
qed

lemma top_bits_bit:
  assumes "j \<le> 32"
  shows "bit ((2::int) ^ 32 - 2 ^ j) i \<longleftrightarrow> j \<le> i \<and> i < 32"
proof -
  have "bit (push_bit j (mask (32 - j)) :: int) i \<longleftrightarrow> j \<le> i \<and> i < 32"
    using assms by (auto simp add: bit_push_bit_iff bit_mask_iff)
  then show ?thesis by (simp only: top_bits_push [OF assms])
qed

lemma and_top_bits:
  assumes "0 \<le> m" "m < 2 ^ 32" "j < 32" "\<forall>i. Suc j \<le> i \<and> i < 32 \<longrightarrow> bit m i"
  shows "js_ushr0 (js_and m (2 ^ 32 - 2 ^ j)) = 2 ^ 32 - 2 ^ j \<longleftrightarrow> bit m j"
proof -
  let ?P = "(2::int) ^ 32 - 2 ^ j"
  have j: "j \<le> 32" using assms(3) by simp
  have "(2::int) ^ j \<le> 2 ^ 32" using j by (intro power_increasing) simp_all
  moreover have "(0::int) < 2 ^ j" by simp
  ultimately have P: "0 \<le> ?P" "?P < 2 ^ 32" by simp_all
  have e: "js_ushr0 (js_and m ?P) = m AND ?P"
    using assms(1,2) P by (simp only: ushr_and take_bit_int_eq_self)
  have t: "bit ?P i \<longleftrightarrow> j \<le> i \<and> i < 32" for i
    by (rule top_bits_bit [OF j])
  show ?thesis
  proof
    assume "js_ushr0 (js_and m ?P) = ?P"
    then have "bit (m AND ?P) j \<longleftrightarrow> bit ?P j" by (simp only: e)
    then show "bit m j" unfolding bit_and_iff t using assms(3) by blast
  next
    assume b: "bit m j"
    have "m AND ?P = ?P"
    proof (rule bit_eqI)
      fix i
      have "j \<le> i \<and> i < 32 \<Longrightarrow> bit m i"
        using b assms(4) by (cases "i = j") auto
      then show "bit (m AND ?P) i \<longleftrightarrow> bit ?P i"
        unfolding bit_and_iff t by blast
    qed
    then show "js_ushr0 (js_and m ?P) = ?P" by (simp only: e)
  qed
qed

lemma calculateCIDRPrefix_loop_eq:
  assumes "0 \<le> m" "m < 2 ^ 32"
  shows "j \<le> 32 \<Longrightarrow> \<forall>i. j \<le> i \<and> i < 32 \<longrightarrow> bit m i \<Longrightarrow>
    calculateCIDRPrefix_loop m (32 - int j) (2 ^ 32 - 2 ^ j) =
      32 - int j + int (length (takeWhile (\<lambda>k. bit m k) (rev [0..<j])))"
proof (induction j)
  case 0
  show ?case by (subst calculateCIDRPrefix_loop.simps) simp
next
  case (Suc j)
  have j: "j < 32" using Suc.prems(1) by simp
  have sh: "32 - (32 - int (Suc j) + 1) = int j" by simp
  have np: "js_ushr0 (2 ^ 32 - 2 ^ Suc j + js_shl 1 (32 - (32 - int (Suc j) + 1))) = 2 ^ 32 - 2 ^ j"
    unfolding sh using j by (rule next_prefix)
  have lt: "32 - int (Suc j) < 32" by simp
  have test: "js_ushr0 (js_and m (2 ^ 32 - 2 ^ j)) = 2 ^ 32 - 2 ^ j \<longleftrightarrow> bit m j"
    using assms j by (rule and_top_bits) (use Suc.prems(2) in simp)
  show ?case
  proof (cases "bit m j")
    case False
    then have "calculateCIDRPrefix_loop m (32 - int (Suc j)) (2 ^ 32 - 2 ^ Suc j) = 32 - int (Suc j)"
      using lt test by (subst calculateCIDRPrefix_loop.simps) (simp only: np Let_def if_True if_False simp_thms)
    then show ?thesis using False by simp
  next
    case True
    have inv: "\<forall>i. j \<le> i \<and> i < 32 \<longrightarrow> bit m i"
    proof (intro allI impI)
      fix i assume "j \<le> i \<and> i < 32"
      then show "bit m i" using True Suc.prems(2) by (cases "i = j") auto
    qed
    have nx: "32 - int (Suc j) + 1 = 32 - int j" by simp
    have "calculateCIDRPrefix_loop m (32 - int (Suc j)) (2 ^ 32 - 2 ^ Suc j) =
        calculateCIDRPrefix_loop m (32 - int j) (2 ^ 32 - 2 ^ j)"
      using lt test True
      by (subst calculateCIDRPrefix_loop.simps) ((simp only: np Let_def), (simp only: nx if_True if_False simp_thms))
    also have "\<dots> = 32 - int j + int (length (takeWhile (\<lambda>k. bit m k) (rev [0..<j])))"
      using Suc.IH j inv by simp
    finally show ?thesis using True by simp
  qed
qed

lemma calculateCIDRPrefix_loop_leadingOnes:
  assumes "0 \<le> m" "m < 2 ^ 32"
  shows "calculateCIDRPrefix_loop m 0 0 = leadingOnes m"
proof -
  have "\<forall>i. (32::nat) \<le> i \<and> i < 32 \<longrightarrow> bit m i" by auto
  then show ?thesis
    using calculateCIDRPrefix_loop_eq [OF assms, of 32] by (simp add: leadingOnes_def)
qed

lemma leadingOnes_range: "0 \<le> leadingOnes m" "leadingOnes m \<le> 32"
proof -
  show "0 \<le> leadingOnes m" by (simp add: leadingOnes_def)
  have "length (takeWhile (\<lambda>k. bit m k) (rev [0..<32])) \<le> length (rev [0..<32])"
    by (rule length_takeWhile_le)
  then show "leadingOnes m \<le> 32" by (simp add: leadingOnes_def)
qed

lemma leadingOnes_bits:
  "i < nat (leadingOnes m) \<Longrightarrow> bit m (31 - i)"
  "leadingOnes m < 32 \<Longrightarrow> \<not> bit m (31 - nat (leadingOnes m))"
proof -
  let ?xs = "rev [0..<32] :: nat list"
  let ?n = "length (takeWhile (\<lambda>k. bit m k) ?xs)"
  have n: "nat (leadingOnes m) = ?n" by (simp add: leadingOnes_def)
  have le: "?n \<le> 32" using length_takeWhile_le [of "\<lambda>k. bit m k" ?xs] by simp
  have nth: "\<And>i. i < 32 \<Longrightarrow> ?xs ! i = 31 - i"
    by (simp add: rev_nth)
  {
    assume "i < nat (leadingOnes m)"
    then have i: "i < ?n" by (simp only: n)
    then have "bit m (takeWhile (\<lambda>k. bit m k) ?xs ! i)"
      using nth_mem [OF i] set_takeWhileD by fastforce
    moreover have "takeWhile (\<lambda>k. bit m k) ?xs ! i = ?xs ! i" using i by (rule takeWhile_nth)
    ultimately show "bit m (31 - i)" using nth [of i] i le by simp
  }
  {
    assume "leadingOnes m < 32"
    then have l: "?n < length ?xs" by (simp add: leadingOnes_def)
    then have "\<not> bit m (?xs ! ?n)" by (rule nth_length_takeWhile)
    then show "\<not> bit m (31 - nat (leadingOnes m))" using nth [of ?n] l by (simp add: n)
  }
qed

lemma calculateCIDRPrefix_eq:
  assumes "toDecimal ip = Inr a" "toDecimal subnetMask = Inr m"
  shows "calculateCIDRPrefix ip subnetMask = Inr (Some (blockAt a (leadingOnes m)))"
proof -
  have "calculateCIDRPrefix_loop m 0 0 = leadingOnes m"
    using toDecimal_range [OF assms(2)] by (rule calculateCIDRPrefix_loop_leadingOnes)
  moreover have "getMaskRange a (leadingOnes m) = Inr (blockAt a (leadingOnes m))"
    using leadingOnes_range by (rule getMaskRange_eq)
  ultimately show ?thesis by (simp add: calculateCIDRPrefix_def assms)
qed

lemma cidr_prefix_examples:
  "calculateCIDRPrefix (Str ''123.123.123.1'') (Str ''255.255.255.0'') =
     Inr (Some \<lparr> ipLow = 2071689984, ipLowStr = ''123.123.123.0'',
                 ipHigh = 2071690239, ipHighStr = ''123.123.123.255'',
                 prefixMask = 4294967040, prefixMaskStr = ''255.255.255.0'',
                 prefixSize = 24,
                 invertedMask = 255, invertedMaskStr = ''0.0.0.255'',
                 invertedMaskSize = 8 \<rparr>)"
  "calculateCIDRPrefix (Str ''123.123.123.1'') (Str ''255.0.255.0'') =
     Inr (Some \<lparr> ipLow = 2063597568, ipLowStr = ''123.0.0.0'',
                 ipHigh = 2080374783, ipHighStr = ''123.255.255.255'',
                 prefixMask = 4278190080, prefixMaskStr = ''255.0.0.0'',
                 prefixSize = 8,
                 invertedMask = 16777215, invertedMaskStr = ''0.255.255.255'',
                 invertedMaskSize = 24 \<rparr>)"
  by code_simp+

section \<open>Canonical output of \<^verbatim>\<open>toString\<close>, and which entry points can raise\<close>

lemma digitChar_eq_0: "d < 10 \<Longrightarrow> digitChar d = CHR ''0'' \<Longrightarrow> d = 0"
proof -
  assume d: "d < 10" and e: "digitChar d = CHR ''0''"
  have "digitVal (digitChar d) = int d" using d by (rule digitVal_digitChar)
  moreover have "digitVal (CHR ''0'') = 0" by (simp add: digitVal_def)
  ultimately show "d = 0" by (simp add: e)
qed

lemma numToString_hd: "0 < n \<Longrightarrow> hd (numToString n) \<noteq> CHR ''0''"
proof (induction n rule: numToString.induct)
  case (1 n)
  show ?case
  proof (cases "n < 10")
    case True
    have "digitChar n \<noteq> CHR ''0''" using digitChar_eq_0 [OF True] "1.prems" by auto
    then show ?thesis using True by (subst numToString.simps) simp
  next
    case False
    then have "0 < n div 10" by simp
    then have "hd (numToString (n div 10)) \<noteq> CHR ''0''" using "1.IH" False by simp
    moreover have "numToString (n div 10) \<noteq> []"
      using numToString_length [of "n div 10"] by (subst numToString.simps) auto
    ultimately show ?thesis using False by (subst numToString.simps) simp
  qed
qed

lemma numToString_canonical: "noLeadingZero (numToString n)"
proof (cases "n = 0")
  case True
  have "numToString 0 = [digitChar 0]" by (subst numToString.simps) simp
  then show ?thesis using True by (simp add: noLeadingZero_def digitChar_0)
next
  case False
  then show ?thesis using numToString_hd [of n] by (simp add: noLeadingZero_def)
qed

lemma ipStr_canonical: "isDecimalIp n \<Longrightarrow> canonicalIp (ipStr n)"
  by (simp add: canonicalIp_def toString_toDecimal(2) split_dot_ipStr numToString_canonical)

lemma calculate_loop_no_error: "calculate_loop c e acc \<noteq> Inl x"
proof (induction c e acc rule: calculate_loop.induct)
  case (1 c e acc)
  show ?case
  proof (cases "c \<le> e")
    case False
    then show ?thesis by (subst calculate_loop.simps) simp
  next
    case True
    show ?thesis
    proof (cases "getOptimalRange c e")
      case (Inl y)
      then show ?thesis using getOptimalRange_no_error [of c e y] by simp
    next
      case (Inr opt)
      show ?thesis
      proof (cases opt)
        case None
        then show ?thesis using True Inr by (subst calculate_loop.simps) simp
      next
        case (Some r)
        then show ?thesis using True Inr "1.IH" [OF True Inr Some]
          by (subst calculate_loop.simps) simp
      qed
    qed
  qed
qed

lemma calculate_no_error: "calculate ipStart ipEnd \<noteq> Inl x"
  by (simp add: calculate_def calculate_loop_no_error split: sum.splits)

lemma calculateCIDRPrefix_no_error: "calculateCIDRPrefix ip subnetMask \<noteq> Inl x"
proof (cases "toDecimal ip")
  case (Inl y)
  then show ?thesis by (simp add: calculateCIDRPrefix_def)
next
  case a: (Inr a)
  show ?thesis
  proof (cases "toDecimal subnetMask")
    case (Inl y)
    then show ?thesis by (simp add: calculateCIDRPrefix_def a)
  next
    case (Inr m)
    then show ?thesis using calculateCIDRPrefix_eq [OF a Inr] by simp
  qed
qed

lemma calculateSubnetMask_no_error:
  "0 \<le> p \<Longrightarrow> p \<le> 32 \<Longrightarrow> calculateSubnetMask ip p \<noteq> Inl x"
  by (simp add: calculateSubnetMask_def getMaskRange_eq split: sum.splits)

lemma subnet_mask_out_of_range:
  "calculateSubnetMask (Str ''1.2.3.4'') 33 = Inl (NotANumericIpAddress (Num 6442450943))"
  "calculateSubnetMask (Num 16909060) (- 1) = Inl (NotANumericIpAddress (Num 4294967296))"
  by code_simp+

lemma leadingOnes_example: "leadingOnes 4278255360 = 8"
  by code_simp

lemma toDecimal_mask_examples:
  "toDecimal (Str ''123.123.123.1'') = Inr 2071689985"
  "toDecimal (Str ''255.0.255.0'') = Inr 4278255360"
  by code_simp+

section \<open>The blocks of \<^verbatim>\<open>calculate\<close> tile the range\<close>

text \<open>
  For every pair of valid addresses \<open>start \<le> end\<close>, \<^verbatim>\<open>calculate\<close> returns a non-empty
  list of descriptors whose blocks cover the interval from \<open>start\<close> to \<open>end\<close> exactly
  once, with no gaps and no overlaps, sorted ascending by low address, each block's low
  being the previous block's high plus one.
\<close>

lemma calculate_tiles_range:
  assumes "toDecimal ipStart = Inr s" "toDecimal ipEnd = Inr e" "s \<le> e"
  shows "\<exists>bs. calculate ipStart ipEnd = Inr (Some bs) \<and> bs \<noteq> [] \<and>
            (\<Union>b\<in>set bs. {ipLow b..ipHigh b}) = {s..e} \<and>
            (\<forall>b\<in>set bs. ipLow b \<le> ipHigh b) \<and>
            (\<forall>i j. i < j \<and> j < length bs \<longrightarrow>
               {ipLow (bs ! i)..ipHigh (bs ! i)} \<inter> {ipLow (bs ! j)..ipHigh (bs ! j)} = {}) \<and>
            sorted_wrt (<) (map ipLow bs) \<and>
            (\<forall>i. Suc i < length bs \<longrightarrow> ipLow (bs ! Suc i) = ipHigh (bs ! i) + 1)"
proof -
  obtain bs where bs: "calculate ipStart ipEnd = Inr (Some bs)" and t: "tiles s e bs"
    using calculate_valid [OF assms] by blast
  have ne: "bs \<noteq> []" using t by (rule tiles_nonempty)
  have un: "(\<Union>b\<in>set bs. {ipLow b..ipHigh b}) = {s..e}" using t by (rule tiles_union)
  have lh: "\<forall>b\<in>set bs. ipLow b \<le> ipHigh b" using tiles_bounds [OF t] by simp
  have ap: "sorted_wrt (\<lambda>a b. ipHigh a < ipLow b) bs" using t by (rule tiles_apart)
  have dj: "\<forall>i j. i < j \<and> j < length bs \<longrightarrow>
      {ipLow (bs ! i)..ipHigh (bs ! i)} \<inter> {ipLow (bs ! j)..ipHigh (bs ! j)} = {}"
  proof (intro allI impI)
    fix i j assume "i < j \<and> j < length bs"
    then have "ipHigh (bs ! i) < ipLow (bs ! j)"
      using ap by (simp add: sorted_wrt_iff_nth_less)
    then show "{ipLow (bs ! i)..ipHigh (bs ! i)} \<inter> {ipLow (bs ! j)..ipHigh (bs ! j)} = {}"
      by auto
  qed
  have "sorted_wrt (\<lambda>a b. ipLow a < ipLow b) bs"
  proof (rule sorted_wrt_mono_rel [OF _ ap])
    fix a b assume "a \<in> set bs" "b \<in> set bs" "ipHigh a < ipLow b"
    then show "ipLow a < ipLow b" using lh by fastforce
  qed
  then have so: "sorted_wrt (<) (map ipLow bs)" by (simp add: sorted_wrt_map)
  have nx: "\<forall>i. Suc i < length bs \<longrightarrow> ipLow (bs ! Suc i) = ipHigh (bs ! i) + 1"
    using tiles_next [OF t] by simp
  show ?thesis
    using bs ne un lh dj so nx by blast
qed

section \<open>The claims\<close>

text \<open>
  C9. For every \<open>n\<close> in \<open>[0, 32]\<close>, \<^verbatim>\<open>getPrefixMask(n)\<close> has exactly the \<open>n\<close>
  most-significant of 32 bits set (so it is 0 at 0 and \<open>0xFFFFFFFF\<close> at 32); for every
  \<open>m\<close> in \<open>[0, 32]\<close>, \<^verbatim>\<open>getMask(m)\<close> has exactly the \<open>m\<close> least-significant bits set;
  and \<^verbatim>\<open>getPrefixMask(n)\<close> and \<^verbatim>\<open>getMask(32 - n)\<close> are complementary: their bitwise
  AND is 0 and their bitwise OR is \<open>0xFFFFFFFF\<close> (on the unsigned values).
\<close>

theorem masks_complementary:
  assumes "0 \<le> n" "n \<le> 32" "0 \<le> m" "m \<le> 32"
  shows "(\<forall>k. bit (getPrefixMask n) k \<longleftrightarrow> nat (32 - n) \<le> k \<and> k < 32) \<and>
         (\<forall>k. bit (getMask m) k \<longleftrightarrow> k < nat m) \<and>
         getPrefixMask 0 = 0 \<and> getPrefixMask 32 = 4294967295 \<and>
         getPrefixMask n AND getMask (32 - n) = 0 \<and>
         getPrefixMask n OR getMask (32 - n) = 4294967295"
proof -
  have "getPrefixMask 0 = 0" "getPrefixMask 32 = 4294967295"
    by (simp_all add: getPrefixMask_eq)
  then show ?thesis
    using assms by (simp add: bit_getPrefixMask bit_getMask masks_and masks_or)
qed

theorem masks_complementary_witness:
  "(0::int) \<le> 24 \<and> (24::int) \<le> 32 \<and> (0::int) \<le> 8 \<and> (8::int) \<le> 32 \<and>
   getPrefixMask 24 = 4294967040 \<and> getMask 8 = 255 \<and>
   bit (getPrefixMask 24) 8 \<and> \<not> bit (getPrefixMask 24) 7 \<and>
   bit (getMask 8) 7 \<and> \<not> bit (getMask 8) 8 \<and>
   getPrefixMask 24 AND getMask (32 - 24) = 0 \<and>
   getPrefixMask 24 OR getMask (32 - 24) = 4294967295"
proof -
  have v: "getPrefixMask 24 = 4294967040" "getMask 8 = 255"
    by (simp_all add: getPrefixMask_eq getMask_eq)
  show ?thesis
    using masks_complementary [of 24 8] by (simp add: v)
qed

text \<open>
  C5. For every 32-bit address \<open>ipNum\<close> and every prefix size in \<open>[0, 32]\<close>,
  \<^verbatim>\<open>getMaskRange\<close> returns a descriptor (it does not throw) with
  \<open>ipHigh = ipLow | invertedMask\<close>, \<open>ipLow = ipLow & prefixMask\<close>,
  \<open>prefixMask & invertedMask = 0\<close>, \<open>prefixMask | invertedMask = 0xFFFFFFFF\<close> and
  \<open>invertedMaskSize = 32 - prefixSize\<close>, the bitwise operators read on unsigned values.
\<close>

theorem getMaskRange_invariant:
  assumes "0 \<le> ipNum" "ipNum < 2 ^ 32" "0 \<le> p" "p \<le> 32"
  shows "\<exists>r. getMaskRange ipNum p = Inr r \<and>
           ipHigh r = ipLow r OR invertedMask r \<and>
           ipLow r = ipLow r AND prefixMask r \<and>
           prefixMask r AND invertedMask r = 0 \<and>
           prefixMask r OR invertedMask r = 4294967295 \<and>
           prefixSize r = p \<and>
           invertedMaskSize r = 32 - prefixSize r"
proof -
  have "getMaskRange ipNum p = Inr (blockAt ipNum p)"
    using assms(3,4) by (rule getMaskRange_eq)
  moreover have "ipHigh (blockAt ipNum p) = ipLow (blockAt ipNum p) OR invertedMask (blockAt ipNum p)"
    using assms(3,4) by (rule getMaskRange_bitwise(1))
  moreover have "ipLow (blockAt ipNum p) = ipLow (blockAt ipNum p) AND prefixMask (blockAt ipNum p)"
    using assms(3,4) by (rule getMaskRange_bitwise(2))
  moreover have "prefixMask (blockAt ipNum p) AND invertedMask (blockAt ipNum p) = 0"
    using assms(3,4) by (simp add: masks_and)
  moreover have "prefixMask (blockAt ipNum p) OR invertedMask (blockAt ipNum p) = 4294967295"
    using assms(3,4) by (simp add: masks_or)
  moreover have "prefixSize (blockAt ipNum p) = p"
    "invertedMaskSize (blockAt ipNum p) = 32 - prefixSize (blockAt ipNum p)"
    by simp_all
  ultimately show ?thesis by blast
qed

theorem getMaskRange_invariant_witness:
  "(0::int) \<le> 33752069 \<and> (33752069::int) < 2 ^ 32 \<and> (0::int) \<le> 24 \<and> (24::int) \<le> 32 \<and>
   (\<exists>r. getMaskRange 33752069 24 = Inr r \<and>
        ipHigh r = ipLow r OR invertedMask r \<and>
        ipLow r = ipLow r AND prefixMask r \<and>
        prefixMask r AND invertedMask r = 0 \<and>
        prefixMask r OR invertedMask r = 4294967295 \<and>
        prefixSize r = 24 \<and>
        invertedMaskSize r = 32 - prefixSize r)"
  using getMaskRange_invariant [of 33752069 24] by simp

text \<open>
  C6. For every 32-bit address and every prefix size in \<open>[0, 32]\<close>, \<^verbatim>\<open>getMaskRange\<close>
  never fails and computes \<open>low = address & prefixMask(prefixSize)\<close>, which has no host
  bit set, and \<open>high = low + hostMask(32 - prefixSize)\<close>. In particular
  \<^verbatim>\<open>calculateSubnetMask("2.3.4.5", 24)\<close> has low 2.3.4.0, high 2.3.4.255 and prefix mask
  255.255.255.0, and \<^verbatim>\<open>calculateSubnetMask("1.2.3.4", 32)\<close> has low and high 1.2.3.4.
\<close>

theorem getMaskRange_low_high:
  assumes "0 \<le> address" "address < 2 ^ 32" "0 \<le> p" "p \<le> 32"
  shows "(\<exists>r. getMaskRange address p = Inr r \<and>
            ipLow r = address AND getPrefixMask p \<and>
            ipLow r AND getMask (32 - p) = 0 \<and>
            ipHigh r = ipLow r + getMask (32 - p)) \<and>
         (\<exists>r. calculateSubnetMask (Str ''2.3.4.5'') 24 = Inr (Some r) \<and>
            ipLowStr r = ''2.3.4.0'' \<and> ipHighStr r = ''2.3.4.255'' \<and>
            prefixMaskStr r = ''255.255.255.0'') \<and>
         (\<exists>r. calculateSubnetMask (Str ''1.2.3.4'') 32 = Inr (Some r) \<and>
            ipLowStr r = ''1.2.3.4'' \<and> ipHighStr r = ''1.2.3.4'' \<and> ipLow r = ipHigh r)"
proof -
  have "getMaskRange address p = Inr (blockAt address p)"
    using assms(3,4) by (rule getMaskRange_eq)
  moreover have "ipLow (blockAt address p) = address AND getPrefixMask p"
    using assms(1,2) by (simp add: blockLow_in_range)
  moreover have "ipLow (blockAt address p) AND getMask (32 - p) = 0"
    using assms(3,4) by (simp add: blockLow_and_mask)
  moreover have "ipHigh (blockAt address p) = ipLow (blockAt address p) + getMask (32 - p)"
    by simp
  ultimately have "\<exists>r. getMaskRange address p = Inr r \<and>
            ipLow r = address AND getPrefixMask p \<and>
            ipLow r AND getMask (32 - p) = 0 \<and>
            ipHigh r = ipLow r + getMask (32 - p)"
    by blast
  then show ?thesis
    by (simp add: subnet_24_example subnet_32_example)
qed

theorem getMaskRange_low_high_witness:
  "(0::int) \<le> 33752069 \<and> (33752069::int) < 2 ^ 32 \<and> (0::int) \<le> 24 \<and> (24::int) \<le> 32 \<and>
   (\<exists>r. getMaskRange 33752069 24 = Inr r \<and>
        ipLow r = 33752064 \<and> ipHigh r = 33752319)"
proof -
  have v: "getPrefixMask 24 = 4294967040" "getMask 8 = 255"
    by (simp_all add: getPrefixMask_eq getMask_eq)
  show ?thesis
    using getMaskRange_low_high [of 33752069 24] by (auto simp add: v)
qed

text \<open>
  C1. The claim says that for valid addresses \<open>start \<le> end\<close> the blocks of
  \<^verbatim>\<open>calculate(start, end)\<close> tile the interval from \<open>start\<close> to \<open>end\<close>, and that
  \<^verbatim>\<open>calculate("10.0.1.255", "10.0.3.255")\<close> returns exactly the three blocks
  10.0.1.255/32, 10.0.2.0/24 and 10.0.3.0/24, as the header comment of the source file
  says it should. The tiling holds (\<open>calculate_tiles_range\<close> above). On this range the
  code returns two blocks instead, 10.0.1.255/32 and 10.0.2.0/23: the downward search of
  \<^verbatim>\<open>getOptimalRange\<close> goes on past /24 to /23, which still starts at 10.0.2.0 and ends
  at 10.0.3.255. The theorem evaluates the call.
\<close>

theorem calculate_header_example_two_blocks:
  "calculate (Str ''10.0.1.255'') (Str ''10.0.3.255'') =
     Inr (Some [\<lparr> ipLow = 167772671, ipLowStr = ''10.0.1.255'',
                   ipHigh = 167772671, ipHighStr = ''10.0.1.255'',
                   prefixMask = 4294967295, prefixMaskStr = ''255.255.255.255'',
                   prefixSize = 32,
                   invertedMask = 0, invertedMaskStr = ''0.0.0.0'',
                   invertedMaskSize = 0 \<rparr>,
                \<lparr> ipLow = 167772672, ipLowStr = ''10.0.2.0'',
                   ipHigh = 167773183, ipHighStr = ''10.0.3.255'',
                   prefixMask = 4294966784, prefixMaskStr = ''255.255.254.0'',
                   prefixSize = 23,
                   invertedMask = 511, invertedMaskStr = ''0.0.1.255'',
                   invertedMaskSize = 9 \<rparr>]) \<and>
   calculate (Str ''10.0.1.255'') (Str ''10.0.3.255'') \<noteq>
     Inr (Some [blockAt 167772671 32, blockAt 167772672 24, blockAt 167772928 24])"
  by (simp add: calculate_range_example blockAt_167772671_32 blockAt_167772672_23)

text \<open>
  C2. For every pair of 32-bit integers \<open>ipNum\<close> and \<open>ipEndNum\<close>, \<^verbatim>\<open>getOptimalRange\<close>
  returns the descriptor of the smallest prefix size whose block has low address
  \<open>ipNum\<close> and high address at most \<open>ipEndNum\<close>. The downward search from 32 needs no
  backtracking: every size from 32 down to the one returned passes the test, and no
  size in \<open>[0, 32]\<close> below it does. It returns \<^verbatim>\<open>null\<close> exactly when the /32 block
  fails the test. No error is raised.
\<close>

theorem getOptimalRange_widest:
  assumes "0 \<le> ipNum" "ipNum < 2 ^ 32" "0 \<le> ipEndNum" "ipEndNum < 2 ^ 32"
  shows "(getOptimalRange ipNum ipEndNum = Inr None \<longleftrightarrow> \<not> fits ipNum ipEndNum 32) \<and>
         (fits ipNum ipEndNum 32 \<longrightarrow>
            (\<exists>p r. 0 \<le> p \<and> p \<le> 32 \<and>
               getOptimalRange ipNum ipEndNum = Inr (Some r) \<and>
               getMaskRange ipNum p = Inr r \<and> prefixSize r = p \<and>
               ipLow r = ipNum \<and> ipHigh r \<le> ipEndNum \<and>
               (\<forall>q. p \<le> q \<and> q \<le> 32 \<longrightarrow> fits ipNum ipEndNum q) \<and>
               (\<forall>q. 0 \<le> q \<and> q \<le> 32 \<and> fits ipNum ipEndNum q \<longrightarrow> p \<le> q)))"
proof (intro conjI impI)
  show "getOptimalRange ipNum ipEndNum = Inr None \<longleftrightarrow> \<not> fits ipNum ipEndNum 32"
    by (rule getOptimalRange_None_iff)
next
  assume "fits ipNum ipEndNum 32"
  then obtain p where p: "0 \<le> p" "p \<le> 32" "fits ipNum ipEndNum p"
      "\<forall>k. 0 \<le> k \<and> k \<le> 32 \<and> fits ipNum ipEndNum k \<longrightarrow> p \<le> k"
      "getOptimalRange ipNum ipEndNum = Inr (Some (blockAt ipNum p))"
    using getOptimalRange_cases [of ipNum ipEndNum] by auto
  have g: "getMaskRange ipNum p = Inr (blockAt ipNum p)"
    using p(1,2) by (rule getMaskRange_eq)
  have b: "ipLow (blockAt ipNum p) = ipNum" "ipHigh (blockAt ipNum p) \<le> ipEndNum"
    using p(3) by (simp_all add: fits_def g)
  have up: "\<forall>q. p \<le> q \<and> q \<le> 32 \<longrightarrow> fits ipNum ipEndNum q"
    using fits_mono [OF p(1) _ _ p(3)] by simp
  have "0 \<le> p \<and> p \<le> 32 \<and>
      getOptimalRange ipNum ipEndNum = Inr (Some (blockAt ipNum p)) \<and>
      getMaskRange ipNum p = Inr (blockAt ipNum p) \<and> prefixSize (blockAt ipNum p) = p \<and>
      ipLow (blockAt ipNum p) = ipNum \<and> ipHigh (blockAt ipNum p) \<le> ipEndNum \<and>
      (\<forall>q. p \<le> q \<and> q \<le> 32 \<longrightarrow> fits ipNum ipEndNum q) \<and>
      (\<forall>q. 0 \<le> q \<and> q \<le> 32 \<and> fits ipNum ipEndNum q \<longrightarrow> p \<le> q)"
    using p g b up by simp
  then show "\<exists>p r. 0 \<le> p \<and> p \<le> 32 \<and>
               getOptimalRange ipNum ipEndNum = Inr (Some r) \<and>
               getMaskRange ipNum p = Inr r \<and> prefixSize r = p \<and>
               ipLow r = ipNum \<and> ipHigh r \<le> ipEndNum \<and>
               (\<forall>q. p \<le> q \<and> q \<le> 32 \<longrightarrow> fits ipNum ipEndNum q) \<and>
               (\<forall>q. 0 \<le> q \<and> q \<le> 32 \<and> fits ipNum ipEndNum q \<longrightarrow> p \<le> q)"
    by blast
qed

theorem getOptimalRange_widest_witness:
  "(0::int) \<le> 167772672 \<and> (167772672::int) < 2 ^ 32 \<and>
   (0::int) \<le> 167773183 \<and> (167773183::int) < 2 ^ 32 \<and>
   fits 167772672 167773183 32 \<and>
   getOptimalRange 167772672 167773183 \<noteq> Inr None \<and>
   (\<exists>p r. 0 \<le> p \<and> p \<le> 32 \<and>
      getOptimalRange 167772672 167773183 = Inr (Some r) \<and>
      getMaskRange 167772672 p = Inr r \<and> prefixSize r = p \<and>
      ipLow r = 167772672 \<and> ipHigh r \<le> 167773183)"
proof -
  have f: "fits 167772672 167773183 32" by (simp add: fits_32)
  have "(0::int) \<le> 167772672" "(167772672::int) < 2 ^ 32"
    "(0::int) \<le> 167773183" "(167773183::int) < 2 ^ 32" by simp_all
  note w = getOptimalRange_widest [OF this]
  have "getOptimalRange 167772672 167773183 \<noteq> Inr None" using w f by simp
  moreover have "\<exists>p r. 0 \<le> p \<and> p \<le> 32 \<and>
      getOptimalRange 167772672 167773183 = Inr (Some r) \<and>
      getMaskRange 167772672 p = Inr r \<and> prefixSize r = p \<and>
      ipLow r = 167772672 \<and> ipHigh r \<le> 167773183"
    using w f by blast
  ultimately show ?thesis using f by simp
qed

text \<open>
  C10. For all integers \<open>0 \<le> ipNum \<le> ipEndNum \<le> 4294967295\<close>, \<^verbatim>\<open>getOptimalRange\<close>
  does not return \<^verbatim>\<open>null\<close>: the /32 candidate has low and high equal to \<open>ipNum\<close> and so
  passes the test. Hence \<^verbatim>\<open>calculate\<close> never takes its \<^verbatim>\<open>null\<close> branch on valid
  endpoints with \<open>start \<le> end\<close> and returns a non-empty list of blocks.
\<close>

theorem getOptimalRange_never_null:
  assumes "0 \<le> ipNum" "ipNum \<le> ipEndNum" "ipEndNum \<le> 4294967295"
  shows "(\<exists>r. getMaskRange ipNum 32 = Inr r \<and> ipLow r = ipNum \<and> ipHigh r = ipNum) \<and>
         (\<exists>r. getOptimalRange ipNum ipEndNum = Inr (Some r)) \<and>
         (\<forall>ipStart ipEnd.
            toDecimal ipStart = Inr ipNum \<and> toDecimal ipEnd = Inr ipEndNum \<longrightarrow>
            (\<exists>bs. calculate ipStart ipEnd = Inr (Some bs) \<and> bs \<noteq> []))"
proof (intro conjI allI impI)
  have f: "fits ipNum ipEndNum 32" using assms by (simp add: fits_32)
  have g: "getMaskRange ipNum 32 = Inr (blockAt ipNum 32)"
    by (rule getMaskRange_eq) simp_all
  have "ipLow (blockAt ipNum 32) = ipNum" using f by (simp add: fits_def g)
  moreover have "ipHigh (blockAt ipNum 32) = ipLow (blockAt ipNum 32)"
    by (simp add: getMask_eq)
  ultimately show "\<exists>r. getMaskRange ipNum 32 = Inr r \<and> ipLow r = ipNum \<and> ipHigh r = ipNum"
    using g by simp
  have "getOptimalRange ipNum ipEndNum \<noteq> Inr None"
    using f by (simp add: getOptimalRange_None_iff)
  then show "\<exists>r. getOptimalRange ipNum ipEndNum = Inr (Some r)"
    using getOptimalRange_no_error [of ipNum ipEndNum]
    by (cases "getOptimalRange ipNum ipEndNum") auto
next
  fix ipStart ipEnd
  assume "toDecimal ipStart = Inr ipNum \<and> toDecimal ipEnd = Inr ipEndNum"
  then obtain bs where "calculate ipStart ipEnd = Inr (Some bs)" "tiles ipNum ipEndNum bs"
    using calculate_valid [of ipStart ipNum ipEnd ipEndNum] assms(2) by blast
  then show "\<exists>bs. calculate ipStart ipEnd = Inr (Some bs) \<and> bs \<noteq> []"
    using tiles_nonempty by blast
qed

theorem getOptimalRange_never_null_witness:
  "(0::int) \<le> 16909060 \<and> (16909060::int) \<le> 16909060 \<and> (16909060::int) \<le> 4294967295 \<and>
   toDecimal (Str ''1.2.3.4'') = Inr 16909060 \<and>
   (\<exists>r. getOptimalRange 16909060 16909060 = Inr (Some r)) \<and>
   (\<exists>bs. calculate (Str ''1.2.3.4'') (Str ''1.2.3.4'') = Inr (Some bs) \<and> bs \<noteq> [])"
proof -
  have "(0::int) \<le> 16909060" "(16909060::int) \<le> 16909060" "(16909060::int) \<le> 4294967295"
    by simp_all
  note w = getOptimalRange_never_null [OF this]
  have t: "toDecimal (Str ''1.2.3.4'') = Inr 16909060" by (rule toDecimal_examples(3))
  have "\<exists>bs. calculate (Str ''1.2.3.4'') (Str ''1.2.3.4'') = Inr (Some bs) \<and> bs \<noteq> []"
    using w t by blast
  moreover have "\<exists>r. getOptimalRange 16909060 16909060 = Inr (Some r)"
    using w by blast
  ultimately show ?thesis using t by simp
qed

text \<open>
  C8. \<^verbatim>\<open>calculate\<close> returns \<^verbatim>\<open>null\<close>, and raises nothing, whenever either endpoint
  fails conversion and whenever the converted end precedes the converted start; in
  particular \<^verbatim>\<open>calculate("1.2.3.4", "1.2.3.3")\<close> is \<^verbatim>\<open>null\<close>, and
  \<^verbatim>\<open>toDecimal("256.1.1.1")\<close> raises the codec's error.
\<close>

theorem calculate_null_on_invalid:
  "(\<forall>x. toDecimal ipStart = Inl x \<longrightarrow> calculate ipStart ipEnd = Inr None) \<and>
   (\<forall>x. toDecimal ipEnd = Inl x \<longrightarrow> calculate ipStart ipEnd = Inr None) \<and>
   (\<forall>s e. toDecimal ipStart = Inr s \<and> toDecimal ipEnd = Inr e \<and> e < s \<longrightarrow>
      calculate ipStart ipEnd = Inr None) \<and>
   calculate (Str ''1.2.3.4'') (Str ''1.2.3.3'') = Inr None \<and>
   toDecimal (Str ''256.1.1.1'') = Inl (NotAnIpAddress (Str ''256.1.1.1''))"
proof -
  have "calculate (Str ''1.2.3.4'') (Str ''1.2.3.3'') = Inr None"
    by (rule calculate_invalid(3) [OF toDecimal_examples(3) toDecimal_examples(4)]) simp
  moreover have "\<forall>x. toDecimal ipStart = Inl x \<longrightarrow> calculate ipStart ipEnd = Inr None"
    using calculate_invalid(1) by blast
  moreover have "\<forall>x. toDecimal ipEnd = Inl x \<longrightarrow> calculate ipStart ipEnd = Inr None"
    using calculate_invalid(2) by blast
  moreover have "\<forall>s e. toDecimal ipStart = Inr s \<and> toDecimal ipEnd = Inr e \<and> e < s \<longrightarrow>
      calculate ipStart ipEnd = Inr None"
    using calculate_invalid(3) by blast
  ultimately show ?thesis
    using toDecimal_examples(5) by blast
qed

theorem calculate_null_on_invalid_witness:
  "toDecimal (Str ''256.1.1.1'') = Inl (NotAnIpAddress (Str ''256.1.1.1'')) \<and>
   calculate (Str ''256.1.1.1'') (Str ''1.2.3.4'') = Inr None \<and>
   calculate (Str ''1.2.3.4'') (Str ''256.1.1.1'') = Inr None \<and>
   toDecimal (Str ''1.2.3.4'') = Inr 16909060 \<and> toDecimal (Str ''1.2.3.3'') = Inr 16909059 \<and>
   (16909059::int) < 16909060 \<and>
   calculate (Str ''1.2.3.4'') (Str ''1.2.3.3'') = Inr None"
proof -
  note t = toDecimal_examples(3-5)
  have "calculate (Str ''256.1.1.1'') (Str ''1.2.3.4'') = Inr None"
    using calculate_null_on_invalid [of "Str ''256.1.1.1''" "Str ''1.2.3.4''"] t by blast
  moreover have "calculate (Str ''1.2.3.4'') (Str ''256.1.1.1'') = Inr None"
    using calculate_null_on_invalid [of "Str ''1.2.3.4''" "Str ''256.1.1.1''"] t by blast
  moreover have "calculate (Str ''1.2.3.4'') (Str ''1.2.3.3'') = Inr None"
    using calculate_null_on_invalid [of "Str ''1.2.3.4''" "Str ''1.2.3.3''"] by blast
  ultimately show ?thesis using t by simp
qed

text \<open>
  C7. For every valid address and every valid subnet-mask value, \<^verbatim>\<open>calculateCIDRPrefix\<close>
  takes as prefix size the length of the run of leading 1-bits of the mask, stopping at
  the first 0-bit from the most-significant side, reports no error for a non-contiguous
  mask, and returns \<^verbatim>\<open>getMaskRange(ip, prefixSize)\<close>. In particular
  \<^verbatim>\<open>calculateCIDRPrefix("123.123.123.1", "255.255.255.0")\<close> has prefix size 24, low
  123.123.123.0 and high 123.123.123.255, and the non-contiguous mask 255.0.255.0 gives
  prefix size 8.
\<close>

theorem calculateCIDRPrefix_leading_ones:
  assumes "toDecimal ip = Inr a" "toDecimal subnetMask = Inr m"
  shows "(\<exists>r. calculateCIDRPrefix ip subnetMask = Inr (Some r) \<and>
            getMaskRange a (leadingOnes m) = Inr r \<and> prefixSize r = leadingOnes m) \<and>
         0 \<le> leadingOnes m \<and> leadingOnes m \<le> 32 \<and>
         (\<forall>i. i < nat (leadingOnes m) \<longrightarrow> bit m (31 - i)) \<and>
         (leadingOnes m < 32 \<longrightarrow> \<not> bit m (31 - nat (leadingOnes m))) \<and>
         (\<exists>r. calculateCIDRPrefix (Str ''123.123.123.1'') (Str ''255.255.255.0'') = Inr (Some r) \<and>
            prefixSize r = 24 \<and> ipLowStr r = ''123.123.123.0'' \<and>
            ipHighStr r = ''123.123.123.255'') \<and>
         (\<exists>r. calculateCIDRPrefix (Str ''123.123.123.1'') (Str ''255.0.255.0'') = Inr (Some r) \<and>
            prefixSize r = 8)"
proof -
  have "calculateCIDRPrefix ip subnetMask = Inr (Some (blockAt a (leadingOnes m)))"
    using assms by (rule calculateCIDRPrefix_eq)
  moreover have "getMaskRange a (leadingOnes m) = Inr (blockAt a (leadingOnes m))"
    using leadingOnes_range by (rule getMaskRange_eq)
  ultimately have "\<exists>r. calculateCIDRPrefix ip subnetMask = Inr (Some r) \<and>
      getMaskRange a (leadingOnes m) = Inr r \<and> prefixSize r = leadingOnes m"
    by simp
  moreover have "\<forall>i. i < nat (leadingOnes m) \<longrightarrow> bit m (31 - i)"
    using leadingOnes_bits(1) by blast
  moreover have "leadingOnes m < 32 \<longrightarrow> \<not> bit m (31 - nat (leadingOnes m))"
    using leadingOnes_bits(2) by blast
  ultimately show ?thesis
    using leadingOnes_range [of m] by (simp add: cidr_prefix_examples)
qed

theorem calculateCIDRPrefix_leading_ones_witness:
  "toDecimal (Str ''123.123.123.1'') = Inr 2071689985 \<and>
   toDecimal (Str ''255.0.255.0'') = Inr 4278255360 \<and>
   leadingOnes 4278255360 = 8 \<and>
   (\<exists>r. calculateCIDRPrefix (Str ''123.123.123.1'') (Str ''255.0.255.0'') = Inr (Some r) \<and>
      getMaskRange 2071689985 8 = Inr r \<and> prefixSize r = 8)"
proof -
  note t = toDecimal_mask_examples
  have "\<exists>r. calculateCIDRPrefix (Str ''123.123.123.1'') (Str ''255.0.255.0'') = Inr (Some r) \<and>
      getMaskRange 2071689985 (leadingOnes 4278255360) = Inr r \<and>
      prefixSize r = leadingOnes 4278255360"
    using calculateCIDRPrefix_leading_ones [OF t] by blast
  then show ?thesis using t by (simp add: leadingOnes_example)
qed

text \<open>
  C3 (as amended). For every integer \<open>a\<close> in \<open>[0, 4294967295]\<close>, \<^verbatim>\<open>toString(a)\<close> is a
  string accepted by \<^verbatim>\<open>isIp\<close>, written without leading zeros, and
  \<^verbatim>\<open>toDecimal(toString(a)) = a\<close>. For every string \<open>a\<close> accepted by \<^verbatim>\<open>isIp\<close>,
  \<^verbatim>\<open>toDecimal(a)\<close> is an integer in \<open>[0, 4294967295]\<close> and \<^verbatim>\<open>toString(toDecimal(a))\<close> is a
  string of the same address; it is \<open>a\<close> itself when no group of \<open>a\<close> has a leading zero.
  Each conversion returns a valid value that is already in its target form unchanged.
\<close>

theorem codec_round_trip:
  "(isDecimalIp n \<longrightarrow>
      (\<exists>t. toString (Num n) = Inr t \<and> canonicalIp t \<and> toDecimal (Str t) = Inr n) \<and>
      toDecimal (Num n) = Inr n) \<and>
   (isIp s \<longrightarrow>
      (\<exists>k t. toDecimal (Str s) = Inr k \<and> isDecimalIp k \<and>
         toString (Num k) = Inr t \<and> toDecimal (Str t) = Inr k) \<and>
      toString (Str s) = Inr s) \<and>
   (canonicalIp s \<longrightarrow>
      (\<exists>k. toDecimal (Str s) = Inr k \<and> toString (Num k) = Inr s))"
proof (intro conjI impI)
  assume n: "isDecimalIp n"
  show "\<exists>t. toString (Num n) = Inr t \<and> canonicalIp t \<and> toDecimal (Str t) = Inr n"
    using toString_toDecimal(1,3) [OF n] ipStr_canonical [OF n] by blast
  show "toDecimal (Num n) = Inr n" using n by (simp add: toDecimal_def)
next
  assume s: "isIp s"
  then obtain k where k: "toDecimal (Str s) = Inr k"
    by (simp add: toDecimal_def Let_def)
  have d: "isDecimalIp k" using toDecimal_range [OF k] by (simp add: isDecimalIp_def)
  show "\<exists>k t. toDecimal (Str s) = Inr k \<and> isDecimalIp k \<and>
         toString (Num k) = Inr t \<and> toDecimal (Str t) = Inr k"
    using k d toString_toDecimal(1,3) [OF d] by blast
  show "toString (Str s) = Inr s" using s by (simp add: toString_def)
next
  assume c: "canonicalIp s"
  then have "isIp s" by (simp add: canonicalIp_def)
  then obtain k where k: "toDecimal (Str s) = Inr k"
    by (simp add: toDecimal_def Let_def)
  then show "\<exists>k. toDecimal (Str s) = Inr k \<and> toString (Num k) = Inr s"
    using toDecimal_toString [OF c k] by blast
qed

theorem codec_round_trip_witness:
  "isDecimalIp 16909060 \<and> isIp ''1.2.3.4'' \<and> canonicalIp ''1.2.3.4'' \<and>
   toDecimal (Str ''1.2.3.4'') = Inr 16909060 \<and>
   toString (Num 16909060) = Inr ''1.2.3.4''"
proof -
  have h: "isDecimalIp 16909060" "isIp ''1.2.3.4''" "canonicalIp ''1.2.3.4''"
    by code_simp+
  have t: "toDecimal (Str ''1.2.3.4'') = Inr 16909060" by (rule toDecimal_examples(3))
  have "\<exists>k. toDecimal (Str ''1.2.3.4'') = Inr k \<and> toString (Num k) = Inr ''1.2.3.4''"
    using codec_round_trip [of 16909060 "''1.2.3.4''"] h(3) by blast
  then have "toString (Num 16909060) = Inr ''1.2.3.4''" using t by auto
  then show ?thesis using h t by simp
qed

text \<open>
  The claim as stated fails on a string with a leading zero: \<^verbatim>\<open>isIp\<close> accepts
  \<open>01.2.3.4\<close>, and converting it to an integer and back gives \<open>1.2.3.4\<close>.
\<close>

theorem codec_leading_zero_counterexample:
  "isIp ''01.2.3.4'' \<and> toDecimal (Str ''01.2.3.4'') = Inr 16909060 \<and>
   toString (Num 16909060) = Inr ''1.2.3.4'' \<and> ''1.2.3.4'' \<noteq> ''01.2.3.4''"
  by (simp add: leading_zero_example)

text \<open>
  C4. The claim says that none of \<^verbatim>\<open>calculate\<close>, \<^verbatim>\<open>calculateSubnetMask\<close> and
  \<^verbatim>\<open>calculateCIDRPrefix\<close> lets an error escape. \<^verbatim>\<open>calculateSubnetMask\<close> does: its call
  of \<^verbatim>\<open>getMaskRange\<close> stands outside the \<^verbatim>\<open>try\<close>, and for a prefix size above 32 or
  below 0 a mask leaves the 32-bit range, which \<^verbatim>\<open>toString\<close> rejects by throwing. The
  theorem evaluates the two calls; \<open>calculate_no_error\<close>,
  \<open>calculateCIDRPrefix_no_error\<close> and \<open>calculateSubnetMask_no_error\<close> above show that
  nothing else escapes.
\<close>

theorem calculateSubnetMask_raises:
  "calculateSubnetMask (Str ''1.2.3.4'') 33 = Inl (NotANumericIpAddress (Num 6442450943)) \<and>
   calculateSubnetMask (Num 16909060) (- 1) = Inl (NotANumericIpAddress (Num 4294967296))"
  by (simp add: subnet_mask_out_of_range)

end
